theory Spec2Isabelle
  imports Complex_Main "HOL-Library.Multiset" "HOL-Library.Char_ord" "HOL-Library.List_Lexorder"
begin

section \<open>Python values\<close>

text \<open>
  The scoring module works on open dictionaries whose values are dynamically typed.
  The values that can reach it are modelled by \<open>pyval\<close>: \<open>None\<close>, booleans, integers,
  floats, strings, calendar dates and lists. A float is a finite value, one of the two
  infinities, or NaN; the finite values are idealised as rationals and the arithmetic
  on them is exact. A date is represented by its day number, so that the difference
  of two dates is the difference of the numbers.
\<close>

datatype pyfloat = Flt rat | PosInf | NegInf | NaN

datatype pyval =
    VNone
  | VBool bool
  | VInt int
  | VFloat pyfloat
  | VStr string
  | VDate int
  | VList "pyval list"

datatype py_error = TypeError | ValueError | OverflowError | KeyError

subsection \<open>Float arithmetic and comparison\<close>

text \<open>
  Sums and products follow the rules for the special values: NaN is absorbing, the
  sum of opposite infinities and the product of an infinity with zero are NaN. Every
  comparison with NaN is false, also \<open>==\<close>.
\<close>

fun fl_add :: "pyfloat \<Rightarrow> pyfloat \<Rightarrow> pyfloat" where
  "fl_add NaN y = NaN"
| "fl_add x NaN = NaN"
| "fl_add PosInf NegInf = NaN"
| "fl_add NegInf PosInf = NaN"
| "fl_add PosInf y = PosInf"
| "fl_add x PosInf = PosInf"
| "fl_add NegInf y = NegInf"
| "fl_add x NegInf = NegInf"
| "fl_add (Flt a) (Flt b) = Flt (a + b)"

definition fl_scale :: "bool \<Rightarrow> rat \<Rightarrow> pyfloat" where
  "fl_scale positive b =
     (if b = 0 then NaN else if (0 < b) = positive then PosInf else NegInf)"

fun fl_mul :: "pyfloat \<Rightarrow> pyfloat \<Rightarrow> pyfloat" where
  "fl_mul NaN y = NaN"
| "fl_mul x NaN = NaN"
| "fl_mul (Flt a) (Flt b) = Flt (a * b)"
| "fl_mul PosInf (Flt b) = fl_scale True b"
| "fl_mul NegInf (Flt b) = fl_scale False b"
| "fl_mul (Flt a) PosInf = fl_scale True a"
| "fl_mul (Flt a) NegInf = fl_scale False a"
| "fl_mul PosInf PosInf = PosInf"
| "fl_mul NegInf NegInf = PosInf"
| "fl_mul PosInf NegInf = NegInf"
| "fl_mul NegInf PosInf = NegInf"

fun fl_lt :: "pyfloat \<Rightarrow> pyfloat \<Rightarrow> bool" where
  "fl_lt (Flt a) (Flt b) = (a < b)"
| "fl_lt NegInf (Flt b) = True"
| "fl_lt NegInf PosInf = True"
| "fl_lt (Flt a) PosInf = True"
| "fl_lt x y = False"

definition fl_eq :: "pyfloat \<Rightarrow> pyfloat \<Rightarrow> bool" where
  "fl_eq x y = (x = y \<and> x \<noteq> NaN)"

definition fl_le :: "pyfloat \<Rightarrow> pyfloat \<Rightarrow> bool" where
  "fl_le x y = (fl_lt x y \<or> fl_eq x y)"

text \<open>
  What the module takes from the Python runtime and the clock: the current day
  (\<open>date.today()\<close>), the parser behind \<open>int(s)\<close> for a string \<open>s\<close> (\<open>None\<close> stands for
  \<open>ValueError\<close>), and \<open>str(v)\<close> for the floats, dates and lists, whose text is not
  modelled further.
\<close>

record env =
  today :: int
  int_of_str :: "string \<Rightarrow> int option"
  str_of :: "pyval \<Rightarrow> string"

subsection \<open>Truth value, numeric value, equality and order\<close>

fun truthy :: "pyval \<Rightarrow> bool" where
  "truthy VNone = False"
| "truthy (VBool b) = b"
| "truthy (VInt n) = (n \<noteq> 0)"
| "truthy (VFloat r) = (r \<noteq> Flt 0)"
| "truthy (VStr s) = (s \<noteq> [])"
| "truthy (VDate d) = True"
| "truthy (VList xs) = (xs \<noteq> [])"

fun num_of :: "pyval \<Rightarrow> pyfloat option" where
  "num_of (VBool b) = Some (Flt (if b then 1 else 0))"
| "num_of (VInt n) = Some (Flt (of_int n))"
| "num_of (VFloat r) = Some r"
| "num_of v = None"

text \<open>
  Python's \<open>==\<close> identifies numbers of equal value across \<open>bool\<close>, \<open>int\<close> and \<open>float\<close>, and
  compares lists elementwise. \<open>eq_repr\<close> maps a value to the representative of its
  \<open>==\<close> class; dictionaries and sets, which identify keys up to \<open>==\<close>, are keyed by it.
  As an operand of \<open>==\<close> a NaN differs from every value, and so does a list that
  contains one: each occurrence in a batch is taken to be an object of its own. As a
  key a NaN is found again, since a dictionary looks for the object it was given
  first; the dictionaries here keep a single key for NaN, which is what the code does
  for a batch in which at most one id is NaN.
\<close>

fun eq_repr :: "pyval \<Rightarrow> pyval" where
  "eq_repr (VBool b) = VFloat (Flt (if b then 1 else 0))"
| "eq_repr (VInt n) = VFloat (Flt (of_int n))"
| "eq_repr (VList xs) = VList (map eq_repr xs)"
| "eq_repr v = v"

fun has_nan :: "pyval \<Rightarrow> bool" where
  "has_nan (VFloat r) = (r = NaN)"
| "has_nan (VList xs) = list_ex has_nan xs"
| "has_nan v = False"

definition py_eq :: "pyval \<Rightarrow> pyval \<Rightarrow> bool" where
  "py_eq a b = (eq_repr a = eq_repr b \<and> \<not> has_nan a)"

fun hashable :: "pyval \<Rightarrow> bool" where
  "hashable (VList xs) = False"
| "hashable v = True"

text \<open>
  Python's \<open><\<close>: numbers by value (false when an operand is NaN), strings and lists
  lexicographically, dates by day; every other pair of operands raises \<open>TypeError\<close>. A list comparison skips the
  leading elements that are \<open>==\<close> and compares the first pair that differs.
\<close>

fun py_lt :: "pyval \<Rightarrow> pyval \<Rightarrow> py_error + bool"
  and lt_list :: "pyval list \<Rightarrow> pyval list \<Rightarrow> py_error + bool" where
  "py_lt (VStr s) (VStr t) = Inr (s < t)"
| "py_lt (VDate d) (VDate e) = Inr (d < e)"
| "py_lt (VList xs) (VList ys) = lt_list xs ys"
| "py_lt a b = (case (num_of a, num_of b) of
                  (Some x, Some y) \<Rightarrow> Inr (fl_lt x y)
                | _ \<Rightarrow> Inl TypeError)"
| "lt_list [] [] = Inr False"
| "lt_list [] (y # ys) = Inr True"
| "lt_list (x # xs) [] = Inr False"
| "lt_list (x # xs) (y # ys) = (if py_eq x y then lt_list xs ys else py_lt x y)"


subsection \<open>Text of values\<close>

definition digit_char :: "nat \<Rightarrow> char" where
  "digit_char n = ''0123456789'' ! (n mod 10)"

fun str_nat :: "nat \<Rightarrow> string" where
  "str_nat n = (if n < 10 then [digit_char n] else str_nat (n div 10) @ [digit_char (n mod 10)])"

declare str_nat.simps [simp del]

definition str_int :: "int \<Rightarrow> string" where
  "str_int i = (if i < 0 then CHR ''-'' # str_nat (nat (- i)) else str_nat (nat i))"

text \<open>\<open>str(v)\<close>, also what an f-string field \<open>{v}\<close> inserts.\<close>

fun py_str :: "env \<Rightarrow> pyval \<Rightarrow> string" where
  "py_str e VNone = ''None''"
| "py_str e (VBool b) = (if b then ''True'' else ''False'')"
| "py_str e (VInt n) = str_int n"
| "py_str e (VStr s) = s"
| "py_str e v = str_of e v"

text \<open>
  \<open>int(v)\<close>: a finite float is truncated towards zero, NaN raises \<open>ValueError\<close> and
  an infinity raises \<open>OverflowError\<close>.
\<close>

fun py_int :: "env \<Rightarrow> pyval \<Rightarrow> py_error + int" where
  "py_int e (VBool b) = Inr (if b then 1 else 0)"
| "py_int e (VInt n) = Inr n"
| "py_int e (VFloat (Flt r)) = Inr (if 0 \<le> r then \<lfloor>r\<rfloor> else \<lceil>r\<rceil>)"
| "py_int e (VFloat NaN) = Inl ValueError"
| "py_int e (VFloat PosInf) = Inl OverflowError"
| "py_int e (VFloat NegInf) = Inl OverflowError"
| "py_int e (VStr s) = (case int_of_str e s of None \<Rightarrow> Inl ValueError | Some n \<Rightarrow> Inr n)"
| "py_int e v = Inl TypeError"

text \<open>\<open>for d in v\<close>: a list yields its elements, a string its characters.\<close>

fun py_iter :: "pyval \<Rightarrow> py_error + pyval list" where
  "py_iter (VList xs) = Inr xs"
| "py_iter (VStr s) = Inr (map (\<lambda>c. VStr [c]) s)"
| "py_iter v = Inl TypeError"

text \<open>
  \<open>round(x, 2)\<close>: a finite value goes to the nearest hundredth, ties to even; the
  infinities and NaN round to themselves.
\<close>

definition round2 :: "rat \<Rightarrow> rat" where
  "round2 x =
     (let y = x * 100; f = \<lfloor>y\<rfloor>; d = y - of_int f
      in of_int (if d < 1 / 2 then f else if 1 / 2 < d then f + 1
                 else if even f then f else f + 1) / 100)"

fun py_round2 :: "pyfloat \<Rightarrow> pyfloat" where
  "py_round2 (Flt x) = Flt (round2 x)"
| "py_round2 x = x"

fun join :: "string \<Rightarrow> string list \<Rightarrow> string" where
  "join sep [] = []"
| "join sep [x] = x"
| "join sep (x # y # ys) = x @ sep @ join sep (y # ys)"

subsection \<open>Dictionaries\<close>

text \<open>
  A dictionary is the list of its items in insertion order. Assigning to a key that
  is present replaces the value in place; a new key is appended.
\<close>

fun dict_get :: "('k \<times> 'v) list \<Rightarrow> 'k \<Rightarrow> 'v option" where
  "dict_get [] k = None"
| "dict_get ((k', v) # d) k = (if k' = k then Some v else dict_get d k)"

fun dict_set :: "('k \<times> 'v) list \<Rightarrow> 'k \<Rightarrow> 'v \<Rightarrow> ('k \<times> 'v) list" where
  "dict_set [] k v = [(k, v)]"
| "dict_set ((k', v') # d) k v = (if k' = k then (k', v) # d else (k', v') # dict_set d k v)"

definition dict_pop :: "('k \<times> 'v) list \<Rightarrow> 'k \<Rightarrow> ('k \<times> 'v) list" where
  "dict_pop d k = filter (\<lambda>kv. fst kv \<noteq> k) d"

type_synonym task = "(string \<times> pyval) list"

text \<open>\<open>task.get(k)\<close>: \<open>None\<close> when the key is missing.\<close>

definition task_get :: "task \<Rightarrow> string \<Rightarrow> pyval" where
  "task_get t k = (case dict_get t k of None \<Rightarrow> VNone | Some v \<Rightarrow> v)"

section \<open>Helper functions\<close>

definition clamp :: "'a::linorder \<Rightarrow> 'a \<Rightarrow> 'a \<Rightarrow> 'a" where
  "clamp val minimum maximum = max minimum (min val maximum)"

definition safe_days_until_due :: "env \<Rightarrow> pyval \<Rightarrow> py_error + int option" where
  "safe_days_until_due e d =
     (if \<not> truthy d then Inr None
      else case d of VDate x \<Rightarrow> Inr (Some (x - today e)) | _ \<Rightarrow> Inl TypeError)"

definition compute_urgency_score :: "env \<Rightarrow> pyval \<Rightarrow> py_error + rat \<times> string" where
  "compute_urgency_score e due =
     (case safe_days_until_due e due of
        Inl err \<Rightarrow> Inl err
      | Inr None \<Rightarrow> Inr (5, ''neutral urgency (no due date)'')
      | Inr (Some days) \<Rightarrow>
          if days < 0 then
            (let days_capped = max days (- 7);
                 urgency = clamp (10 + days_capped) 7 10
             in Inr (of_int urgency, ''overdue by '' @ str_int (- days) @ '' days''))
          else
            (let raw = 10 - days;
                 urgency = clamp raw 0 10;
                 reason = (if days = 0 then ''due today''
                           else if days \<le> 3 then ''due soon (in '' @ str_int days @ '' days)''
                           else ''due in '' @ str_int days @ '' days'')
             in Inr (of_int urgency, reason)))"

definition compute_effort_score :: "env \<Rightarrow> pyval \<Rightarrow> py_error + rat \<times> string" where
  "compute_effort_score e hours =
     (if hours = VNone then Inr (6, ''unknown effort (assumed medium)'')
      else case num_of hours of
        None \<Rightarrow> Inl TypeError
      | Some h \<Rightarrow>
          if fl_le h (Flt 0) then Inr (6, ''unknown effort (assumed medium)'')
          else if fl_le h (Flt 1) then Inr (10, ''very low effort (~'' @ py_str e hours @ ''h)'')
          else if fl_le h (Flt 3) then Inr (8, ''low effort (~'' @ py_str e hours @ ''h)'')
          else if fl_le h (Flt 6) then Inr (6, ''medium effort (~'' @ py_str e hours @ ''h)'')
          else if fl_le h (Flt 10) then Inr (4, ''high effort (~'' @ py_str e hours @ ''h)'')
          else Inr (2, ''very high effort (~'' @ py_str e hours @ ''h)''))"

text \<open>
  The \<open>except\<close> clause catches \<open>TypeError\<close> and \<open>ValueError\<close> only: the
  \<open>OverflowError\<close> of an infinite importance leaves the function.
\<close>

definition normalize_importance :: "env \<Rightarrow> pyval \<Rightarrow> py_error + int" where
  "normalize_importance e importance =
     (case py_int e importance of
        Inl TypeError \<Rightarrow> Inr 5
      | Inl ValueError \<Rightarrow> Inr 5
      | Inl err \<Rightarrow> Inl err
      | Inr val \<Rightarrow> Inr (clamp val 1 10))"


section \<open>Dependency graph\<close>

type_synonym graph = "(pyval \<times> pyval list) list"

type_synonym counts = "(pyval \<times> int) list"

text \<open>\<open>task.get("id") or str(idx)\<close>\<close>

definition internal_id_of :: "nat \<Rightarrow> task \<Rightarrow> pyval" where
  "internal_id_of idx task =
     (if truthy (task_get task ''id'') then task_get task ''id'' else VStr (str_int (int idx)))"

text \<open>
  The first loop of \<open>build_dependency_graph\<close>. It writes \<open>_internal_id\<close> into the
  caller's task dictionaries, so the tasks are returned as the loop leaves them, also
  when a list-valued id cannot be used as a dictionary key and the loop raises.
\<close>

fun assign_ids :: "nat \<Rightarrow> task list \<Rightarrow> graph \<Rightarrow> counts \<Rightarrow> task list \<times> (py_error + graph \<times> counts)" where
  "assign_ids idx [] id_to_deps dependents_count = ([], Inr (id_to_deps, dependents_count))"
| "assign_ids idx (task # rest) id_to_deps dependents_count =
     (let task_id = internal_id_of idx task;
          task' = dict_set task ''_internal_id'' task_id
      in if \<not> hashable task_id then (task' # rest, Inl TypeError)
         else (let (rest', r) = assign_ids (Suc idx) rest
                                  (dict_set id_to_deps (eq_repr task_id) [])
                                  (dict_set dependents_count (eq_repr task_id) 0)
               in (task' # rest', r)))"

text \<open>
  The inner loop over the stringified dependencies: a missing key is entered with 0
  and then incremented, so it ends at 1.
\<close>

fun count_deps :: "pyval list \<Rightarrow> counts \<Rightarrow> counts" where
  "count_deps [] dependents_count = dependents_count"
| "count_deps (d # ds) dependents_count =
     count_deps ds (case dict_get dependents_count d of
                      None \<Rightarrow> dict_set dependents_count d (0 + 1)
                    | Some n \<Rightarrow> dict_set dependents_count d (n + 1))"

text \<open>
  \<open>deps = task.get("dependencies") or []\<close> and \<open>norm_deps = [str(d) for d in deps]\<close>:
  iterating a value that is true and is neither a list nor a string raises.
\<close>

definition norm_deps_of :: "env \<Rightarrow> task \<Rightarrow> py_error + pyval list" where
  "norm_deps_of e task =
     (case (if truthy (task_get task ''dependencies'')
            then py_iter (task_get task ''dependencies'') else Inr []) of
        Inl err \<Rightarrow> Inl err
      | Inr deps \<Rightarrow> Inr (map (\<lambda>d. VStr (py_str e d)) deps))"

text \<open>The second loop: the stringified dependencies and the reverse counts.\<close>

fun fill_deps :: "env \<Rightarrow> task list \<Rightarrow> graph \<Rightarrow> counts \<Rightarrow> py_error + graph \<times> counts" where
  "fill_deps e [] id_to_deps dependents_count = Inr (id_to_deps, dependents_count)"
| "fill_deps e (task # rest) id_to_deps dependents_count =
     (case dict_get task ''_internal_id'' of
        None \<Rightarrow> Inl KeyError
      | Some task_id \<Rightarrow>
          (case norm_deps_of e task of
             Inl err \<Rightarrow> Inl err
           | Inr norm_deps \<Rightarrow>
               if \<not> hashable task_id then Inl TypeError
               else fill_deps e rest (dict_set id_to_deps (eq_repr task_id) norm_deps)
                      (count_deps norm_deps dependents_count)))"

definition build_dependency_graph :: "env \<Rightarrow> task list \<Rightarrow> task list \<times> (py_error + graph \<times> counts)" where
  "build_dependency_graph e tasks =
     (case assign_ids 0 tasks [] [] of
        (tasks', Inl err) \<Rightarrow> (tasks', Inl err)
      | (tasks', Inr (id_to_deps, dependents_count)) \<Rightarrow>
          (tasks', fill_deps e tasks' id_to_deps dependents_count))"

section \<open>Cycle detection\<close>

record dfs_state =
  visited :: "pyval set"
  on_stack :: "pyval set"
  in_cycle :: "pyval set"

text \<open>
  The nested function \<open>dfs\<close> and its loop over the neighbours, with the three sets it
  closes over passed as state. \<open>on_stack.remove(node)\<close> raises \<open>KeyError\<close> when the
  node is not in the set.
\<close>

function dfs :: "graph \<Rightarrow> pyval \<Rightarrow> dfs_state \<Rightarrow> py_error + dfs_state"
  and dfs_neighbours :: "graph \<Rightarrow> pyval \<Rightarrow> pyval list \<Rightarrow> dfs_state \<Rightarrow> py_error + dfs_state"
where
  "dfs graph node st =
     (if node \<in> visited st then Inr st
      else case dfs_neighbours graph node
                  (case dict_get graph node of None \<Rightarrow> [] | Some ns \<Rightarrow> ns)
                  (st\<lparr>visited := insert node (visited st),
                      on_stack := insert node (on_stack st)\<rparr>) of
             Inl err \<Rightarrow> Inl err
           | Inr st' \<Rightarrow>
               if node \<in> on_stack st' then Inr (st'\<lparr>on_stack := on_stack st' - {node}\<rparr>)
               else Inl KeyError)"
| "dfs_neighbours graph node [] st = Inr st"
| "dfs_neighbours graph node (neigh # rest) st =
     (if neigh \<notin> visited st then
        (case dfs graph neigh st of
           Inl err \<Rightarrow> Inl err
         | Inr st' \<Rightarrow> dfs_neighbours graph node rest st')
      else if neigh \<in> on_stack st then
        dfs_neighbours graph node rest
          (st\<lparr>in_cycle := insert neigh (insert node (in_cycle st))\<rparr>)
      else dfs_neighbours graph node rest st)"
  by pat_completeness auto

text \<open>The loop over \<open>graph.keys()\<close>.\<close>

fun dfs_all :: "graph \<Rightarrow> pyval list \<Rightarrow> dfs_state \<Rightarrow> py_error + dfs_state" where
  "dfs_all graph [] st = Inr st"
| "dfs_all graph (node # rest) st =
     (if node \<notin> visited st then
        (case dfs graph node st of
           Inl err \<Rightarrow> Inl err
         | Inr st' \<Rightarrow> dfs_all graph rest st')
      else dfs_all graph rest st)"

definition detect_cycles :: "graph \<Rightarrow> py_error + pyval set" where
  "detect_cycles graph =
     (case dfs_all graph (map fst graph) \<lparr>visited = {}, on_stack = {}, in_cycle = {}\<rparr> of
        Inl err \<Rightarrow> Inl err
      | Inr st \<Rightarrow> Inr (in_cycle st))"

section \<open>Strategy scoring functions\<close>

text \<open>
  A weight is any float, also an infinity or NaN; the factors that \<open>score_task\<close> passes
  to the formulas are finite.
\<close>

definition SMART_WEIGHTS :: "(string \<times> pyfloat) list" where
  "SMART_WEIGHTS = [(''importance'', Flt (4 / 10)), (''urgency'', Flt (3 / 10)),
                    (''effort'', Flt (2 / 10)), (''dependencies'', Flt (1 / 10))]"

definition score_fastest_wins :: "rat \<Rightarrow> rat \<Rightarrow> rat \<Rightarrow> rat" where
  "score_fastest_wins importance urgency effort =
     7 / 10 * effort + 2 / 10 * urgency + 1 / 10 * importance"

definition score_deadline_driven :: "rat \<Rightarrow> rat \<Rightarrow> rat" where
  "score_deadline_driven importance urgency = 7 / 10 * urgency + 3 / 10 * importance"

definition score_high_impact :: "rat \<Rightarrow> rat" where
  "score_high_impact importance = 1 * importance"

text \<open>\<open>w.get(k, 0.0)\<close>\<close>

definition weight_get :: "(string \<times> pyfloat) list \<Rightarrow> string \<Rightarrow> pyfloat" where
  "weight_get w k = (case dict_get w k of None \<Rightarrow> Flt 0 | Some x \<Rightarrow> x)"

text \<open>\<open>weights or SMART_WEIGHTS\<close>: \<open>None\<close> and the empty dictionary are both false.\<close>

definition score_smart_balance ::
  "rat \<Rightarrow> rat \<Rightarrow> rat \<Rightarrow> int \<Rightarrow> (string \<times> pyfloat) list option \<Rightarrow> pyfloat" where
  "score_smart_balance importance urgency effort blocks weights =
     (let w = (case weights of None \<Rightarrow> SMART_WEIGHTS
               | Some ws \<Rightarrow> if ws = [] then SMART_WEIGHTS else ws)
      in fl_add (fl_add (fl_add
           (fl_mul (weight_get w ''importance'') (Flt importance))
           (fl_mul (weight_get w ''urgency'') (Flt urgency)))
           (fl_mul (weight_get w ''effort'') (Flt effort)))
           (fl_mul (weight_get w ''dependencies'') (Flt (of_int blocks))))"

section \<open>Public API\<close>

record scored_task =
  st_task :: task
  st_score :: pyfloat
  st_strategy :: string
  st_explanation :: string
  st_has_cycle :: bool

definition score_task ::
  "env \<Rightarrow> task \<Rightarrow> string \<Rightarrow> counts \<Rightarrow> (string \<times> pyfloat) list option \<Rightarrow> pyval set option
   \<Rightarrow> py_error + scored_task" where
  "score_task e task strategy dependents_count weights cycle_set =
     (let task_id = task_get task ''_internal_id'' in
      case normalize_importance e (task_get task ''importance'') of
        Inl err \<Rightarrow> Inl err
      | Inr imp \<Rightarrow>
      (let importance = (of_int imp :: rat);
           due_date = task_get task ''due_date'';
           hours = task_get task ''estimated_hours'' in
       case compute_urgency_score e due_date of
         Inl err \<Rightarrow> Inl err
       | Inr (urgency, urgency_reason) \<Rightarrow>
       (case compute_effort_score e hours of
          Inl err \<Rightarrow> Inl err
        | Inr (effort, effort_reason) \<Rightarrow>
        if \<not> hashable task_id then Inl TypeError
        else
        (let blocks = (case dict_get dependents_count (eq_repr task_id) of
                         None \<Rightarrow> 0 | Some n \<Rightarrow> n);
             (score, lead) =
               (if strategy = ''fastest_wins'' then
                  (Flt (score_fastest_wins importance urgency effort),
                   ''prioritized quick wins (low effort)'')
                else if strategy = ''high_impact'' then
                  (Flt (score_high_impact importance), ''prioritized high importance'')
                else if strategy = ''deadline_driven'' then
                  (Flt (score_deadline_driven importance urgency), ''prioritized close deadlines'')
                else
                  (score_smart_balance importance urgency effort blocks weights,
                   ''balanced importance, urgency, effort, and dependencies''));
             cycle_flag = (case cycle_set of
                             None \<Rightarrow> False
                           | Some c \<Rightarrow> c \<noteq> {} \<and> eq_repr task_id \<in> c);
             explanation_bits =
               [lead,
                ''importance '' @ str_int imp @ ''.0/10'',
                ''urgency because it is '' @ urgency_reason,
                effort_reason]
               @ (if 0 < blocks then [''unblocks '' @ str_int blocks @ '' other task(s)''] else [])
               @ (if cycle_flag then [''involved in a circular dependency''] else [])
         in Inr \<lparr>st_task = task, st_score = py_round2 score, st_strategy = strategy,
                 st_explanation = join ''; '' explanation_bits,
                 st_has_cycle = cycle_flag\<rparr>))))"

text \<open>The loop of \<open>analyze_tasks\<close> that scores the tasks in input order.\<close>

fun score_all ::
  "env \<Rightarrow> string \<Rightarrow> counts \<Rightarrow> (string \<times> pyfloat) list option \<Rightarrow> pyval set \<Rightarrow> task list
   \<Rightarrow> py_error + scored_task list" where
  "score_all e strategy dependents weights cycle_nodes [] = Inr []"
| "score_all e strategy dependents weights cycle_nodes (task # rest) =
     (case score_task e task strategy dependents weights (Some cycle_nodes) of
        Inl err \<Rightarrow> Inl err
      | Inr scored_task \<Rightarrow>
          (case score_all e strategy dependents weights cycle_nodes rest of
             Inl err \<Rightarrow> Inl err
           | Inr scored \<Rightarrow> Inr (scored_task # scored)))"

text \<open>The sort key \<open>(st.score, st.task.get("importance", 0))\<close> and \<open><\<close> on such pairs.\<close>

definition sort_key :: "scored_task \<Rightarrow> pyfloat \<times> pyval" where
  "sort_key st = (st_score st, case dict_get (st_task st) ''importance'' of
                                 None \<Rightarrow> VInt 0 | Some v \<Rightarrow> v)"

fun key_lt :: "pyfloat \<times> pyval \<Rightarrow> pyfloat \<times> pyval \<Rightarrow> py_error + bool" where
  "key_lt (s1, i1) (s2, i2) =
     (if \<not> fl_eq s1 s2 then Inr (fl_lt s1 s2)
      else if py_eq i1 i2 then Inr False
      else py_lt i1 i2)"

text \<open>
  \<open>list.sort(key=..., reverse=True)\<close> is stable and raises when a comparison it makes
  raises. Which pairs it compares is left to the implementation, so the model returns
  a list only when every two keys can be compared and raises \<open>TypeError\<close> otherwise;
  for a list of two elements, whose keys are compared once, this is exact. The list
  returned is that of a stable insertion from the right, which is the one order that
  a stable descending sort can give when \<open><\<close> orders the keys. On keys that involve
  NaN, \<open><\<close> is no order and the outcome depends on the comparisons made; for the
  batch \<open>batch_nan\<close> below both leave the input order.
\<close>

fun insort_desc :: "scored_task \<Rightarrow> scored_task list \<Rightarrow> scored_task list" where
  "insort_desc x [] = [x]"
| "insort_desc x (y # ys) =
     (if key_lt (sort_key x) (sort_key y) = Inr True then y # insort_desc x ys
      else x # y # ys)"

definition sort_desc :: "scored_task list \<Rightarrow> py_error + scored_task list" where
  "sort_desc xs =
     (if list_all (\<lambda>x. list_all (\<lambda>y. \<not> isl (key_lt (sort_key x) (sort_key y))) xs) xs
      then Inr (foldr insort_desc xs [])
      else Inl TypeError)"

definition to_dict :: "scored_task \<Rightarrow> task" where
  "to_dict st =
     dict_set (dict_set (dict_set (dict_set (dict_pop (st_task st) ''_internal_id'')
        ''score'' (VFloat (st_score st)))
        ''strategy_used'' (VStr (st_strategy st)))
        ''explanation'' (VStr (st_explanation st)))
        ''has_cycle'' (VBool (st_has_cycle st))"

text \<open>
  The sort key read off an output record, and \<open>==\<close> on sort keys. The output record
  keeps the task's \<open>importance\<close> entry and carries the rounded score.
\<close>

definition record_key :: "task \<Rightarrow> pyfloat \<times> pyval" where
  "record_key r = (case dict_get r ''score'' of Some (VFloat s) \<Rightarrow> s | _ \<Rightarrow> Flt 0,
                   case dict_get r ''importance'' of None \<Rightarrow> VInt 0 | Some v \<Rightarrow> v)"

definition key_eq :: "pyfloat \<times> pyval \<Rightarrow> pyfloat \<times> pyval \<Rightarrow> bool" where
  "key_eq k1 k2 = (fl_eq (fst k1) (fst k2) \<and> py_eq (snd k1) (snd k2))"

text \<open>A sort key that involves no NaN, in the score or in the importance entry.\<close>

definition nan_free :: "pyfloat \<times> pyval \<Rightarrow> bool" where
  "nan_free k = (fst k \<noteq> NaN \<and> \<not> has_nan (snd k))"

text \<open>
  \<open>analyze_tasks\<close> returns the caller's tasks as the call leaves them, together with
  the list it returns or the error it raises.
\<close>

definition analyze_tasks ::
  "env \<Rightarrow> task list \<Rightarrow> string \<Rightarrow> (string \<times> pyfloat) list option \<Rightarrow> task list \<times> (py_error + task list)" where
  "analyze_tasks e tasks strategy weights =
     (if tasks = [] then ([], Inr [])
      else case build_dependency_graph e tasks of
        (tasks', Inl err) \<Rightarrow> (tasks', Inl err)
      | (tasks', Inr (graph, dependents)) \<Rightarrow>
          (case detect_cycles graph of
             Inl err \<Rightarrow> (tasks', Inl err)
           | Inr cycle_nodes \<Rightarrow>
               (case score_all e strategy dependents weights cycle_nodes tasks' of
                  Inl err \<Rightarrow> (tasks', Inl err)
                | Inr scored \<Rightarrow>
                    (case sort_desc scored of
                       Inl err \<Rightarrow> (tasks', Inl err)
                     | Inr sorted_tasks \<Rightarrow> (tasks', Inr (map to_dict sorted_tasks))))))"

text \<open>
  The order in which the sort leaves two records: the first is not below the second.
  The entries that \<open>analyze_tasks\<close> adds to, or removes from, a task.
\<close>

abbreviation not_below :: "scored_task \<Rightarrow> scored_task \<Rightarrow> bool" where
  "not_below a b \<equiv> key_lt (sort_key a) (sort_key b) = Inr False"

definition added_keys :: "string set" where
  "added_keys = {''_internal_id'', ''score'', ''strategy_used'', ''explanation'', ''has_cycle''}"

text \<open>\<open>dependents_count.get(k, 0)\<close>\<close>

abbreviation count_of :: "counts \<Rightarrow> pyval \<Rightarrow> int" where
  "count_of c k \<equiv> (case dict_get c k of None \<Rightarrow> 0 | Some n \<Rightarrow> n)"

text \<open>The strategy names that reach the final \<open>else\<close> branch of \<open>score_task\<close>.\<close>

definition other_strategy :: "string \<Rightarrow> bool" where
  "other_strategy s = (s \<noteq> ''fastest_wins'' \<and> s \<noteq> ''high_impact'' \<and> s \<noteq> ''deadline_driven'')"

text \<open>
  \<open>graph.get(node, [])\<close>, and the invariant of the traversal: once a node has been
  left, each of its edges that is answered by an opposite edge has both ends marked.
\<close>

definition nbrs :: "graph \<Rightarrow> pyval \<Rightarrow> pyval list" where
  "nbrs graph node = (case dict_get graph node of None \<Rightarrow> [] | Some ns \<Rightarrow> ns)"

definition finished_ok :: "graph \<Rightarrow> dfs_state \<Rightarrow> bool" where
  "finished_ok graph st =
     (\<forall>x\<in>visited st - on_stack st. \<forall>m\<in>set (nbrs graph x).
        x \<in> set (nbrs graph m) \<longrightarrow> x \<in> in_cycle st \<and> m \<in> in_cycle st)"

definition dfs_post :: "graph \<Rightarrow> dfs_state \<Rightarrow> dfs_state \<Rightarrow> bool" where
  "dfs_post graph st st' =
     (on_stack st' = on_stack st \<and> visited st \<subseteq> visited st'
      \<and> in_cycle st \<subseteq> in_cycle st' \<and> finished_ok graph st')"

text \<open>
  A sample environment for evaluating the functions on concrete batches: a fixed day,
  a parser that reads plain decimal numerals, and a placeholder for the texts that
  are not modelled.
\<close>

definition int_of_digits :: "string \<Rightarrow> int option" where
  "int_of_digits s =
     (if s \<noteq> [] \<and> list_all (\<lambda>c. c \<in> set ''0123456789'') s
      then Some (foldl (\<lambda>n c. 10 * n + (int (of_char c) - 48)) 0 s)
      else None)"

definition env0 :: env where
  "env0 = \<lparr>today = 739000, int_of_str = int_of_digits, str_of = (\<lambda>v. ''?'')\<rparr>"

text \<open>Sample batches.\<close>

definition batch_ties :: "task list" where
  "batch_ties =
     [[(''id'', VStr ''a''), (''importance'', VInt 3)],
      [(''id'', VStr ''b''), (''importance'', VInt 9)],
      [(''id'', VStr ''c''), (''importance'', VInt 9)]]"

definition batch_nan :: "task list" where
  "batch_nan =
     [[(''id'', VStr ''a''), (''importance'', VFloat (Flt (26 / 5)))],
      [(''id'', VStr ''b''), (''importance'', VFloat NaN)],
      [(''id'', VStr ''c''), (''importance'', VFloat (Flt (57 / 10)))]]"

definition batch_mixed :: "task list" where
  "batch_mixed = [[(''id'', VStr ''a'')], [(''title'', VStr ''no id'')]]"

definition batch_deps :: "task list" where
  "batch_deps =
     [[(''id'', VStr ''a''), (''dependencies'', VList [VStr ''b'', VStr ''z''])],
      [(''id'', VStr ''b'')]]"

text \<open>Batches with a mutual dependency, a self-dependency and a reused id.\<close>

definition batch_cycle :: "task list" where
  "batch_cycle =
     [[(''id'', VStr ''a''), (''dependencies'', VList [VStr ''b''])],
      [(''id'', VStr ''b''), (''dependencies'', VList [VStr ''a''])]]"

definition batch_self :: "task list" where
  "batch_self = [[(''id'', VStr ''a''), (''dependencies'', VList [VStr ''a''])]]"

definition batch_dup :: "task list" where
  "batch_dup =
     [[(''id'', VStr ''a''), (''dependencies'', VList [VStr ''b''])],
      [(''id'', VStr ''b''), (''dependencies'', VList [VStr ''a''])],
      [(''id'', VStr ''a'')]]"

text \<open>
  The fields of a task that the scorers can handle: an id that is false or can be a
  dictionary key, an importance that is no infinite float, a due date that is false
  or a date, an estimated effort that is \<open>None\<close> or a number, and dependencies that
  are false or can be iterated.
\<close>

fun is_date :: "pyval \<Rightarrow> bool" where
  "is_date (VDate d) = True"
| "is_date v = False"

fun is_inf :: "pyval \<Rightarrow> bool" where
  "is_inf (VFloat PosInf) = True"
| "is_inf (VFloat NegInf) = True"
| "is_inf v = False"

definition well_typed_task :: "task \<Rightarrow> bool" where
  "well_typed_task t =
     ((if truthy (task_get t ''id'') then hashable (task_get t ''id'') else True)
      \<and> \<not> is_inf (task_get t ''importance'')
      \<and> (if truthy (task_get t ''due_date'') then is_date (task_get t ''due_date'') else True)
      \<and> (if task_get t ''estimated_hours'' = VNone then True
          else num_of (task_get t ''estimated_hours'') \<noteq> None)
      \<and> (if truthy (task_get t ''dependencies'')
          then \<not> isl (py_iter (task_get t ''dependencies'')) else True))"

text \<open>
  The second component of the sort key of a task, and the batches in which every two
  of them are equal or can be compared with \<open><\<close>.
\<close>

definition raw_importance :: "task \<Rightarrow> pyval" where
  "raw_importance t = (case dict_get t ''importance'' of None \<Rightarrow> VInt 0 | Some v \<Rightarrow> v)"

definition comparable :: "pyval \<Rightarrow> pyval \<Rightarrow> bool" where
  "comparable a b = (if py_eq a b then True else \<not> isl (py_lt a b))"

definition comparable_importance :: "task list \<Rightarrow> bool" where
  "comparable_importance ts =
     list_all (\<lambda>a. list_all (\<lambda>b. comparable (raw_importance a) (raw_importance b)) ts) ts"

text \<open>
  A batch whose fields are missing or invalid within these limits, and three batches
  beyond them: an effort that is a string, an infinite importance, and two invalid
  importances of different types.
\<close>

definition batch_degraded :: "task list" where
  "batch_degraded =
     [[(''title'', VStr ''nothing given''), (''importance'', VStr ''high'')],
      [(''id'', VStr ''t2''), (''importance'', VStr ''n/a''), (''due_date'', VNone),
       (''estimated_hours'', VInt 0), (''dependencies'', VNone)]]"

definition batch_bad_hours :: "task list" where
  "batch_bad_hours = [[(''id'', VStr ''a''), (''estimated_hours'', VStr ''2'')]]"

definition batch_inf_importance :: "task list" where
  "batch_inf_importance = [[(''id'', VStr ''a''), (''importance'', VFloat PosInf)]]"

definition batch_mixed_importance :: "task list" where
  "batch_mixed_importance = [[(''id'', VStr ''a'')], [(''id'', VStr ''b''), (''importance'', VStr ''high'')]]"

section \<open>Termination of the traversal\<close>

lemma dict_get_None_iff: "dict_get d k = None \<longleftrightarrow> k \<notin> fst ` set d"
  by (induction d) (auto split: if_splits)

lemma dfs_dom_visited:
  "dfs_dfs_neighbours_dom (Inl (graph, node, st)) \<Longrightarrow> dfs graph node st = Inr st'
     \<Longrightarrow> visited st \<subseteq> visited st'"
  "dfs_dfs_neighbours_dom (Inr (graph, node, ns, st)) \<Longrightarrow> dfs_neighbours graph node ns st = Inr st'
     \<Longrightarrow> visited st \<subseteq> visited st'"
proof (induction graph node st and graph node ns st arbitrary: st' and st'
       rule: dfs_dfs_neighbours.pinduct)
  case (1 graph node st)
  then show ?case
    by (auto simp: dfs.psimps split: if_splits sum.splits)
next
  case (2 graph node st)
  then show ?case by (simp add: dfs_neighbours.psimps)
next
  case (3 graph node neigh rest st)
  then show ?case
    by (fastforce simp: dfs_neighbours.psimps split: if_splits sum.splits)
qed

text \<open>
  Every call either marks a key of the graph as visited, or leaves the visited set
  alone and shortens the work of the loop it belongs to.
\<close>

termination dfs
proof (relation "inv_image (less_than <*lex*> less_than) (\<lambda>x. case x of
           Inl (g, n, st) \<Rightarrow> (card (fst ` set g - visited st), 1::nat)
         | Inr (g, n, ns, st) \<Rightarrow> (card (fst ` set g - visited st), 2 * length ns))",
       goal_cases)
  case 1
  show ?case by (intro wf_inv_image wf_lex_prod wf_less_than)
next
  case (2 graph node st)
  show ?case
  proof (cases "dict_get graph node")
    case None
    have "node \<notin> fst ` set graph" using None
      by (simp add: dict_get_None_iff)
    then have "fst ` set graph - insert node (visited st) = fst ` set graph - visited st"
      by auto
    then show ?thesis using None by simp
  next
    case (Some ns)
    have "node \<in> fst ` set graph" using Some dict_get_None_iff [of graph node]
      by auto
    then have "card (fst ` set graph - insert node (visited st))
                 < card (fst ` set graph - visited st)"
      using 2 by (intro psubset_card_mono) auto
    then show ?thesis by simp
  qed
next
  case (3 graph node neigh rest st)
  then show ?case by simp
next
  case (4 graph node neigh rest st x2)
  then have "visited st \<subseteq> visited x2" using dfs_dom_visited(1) by blast
  then have "card (fst ` set graph - visited x2) \<le> card (fst ` set graph - visited st)"
    by (intro card_mono) auto
  then show ?case by auto
next
  case 5
  then show ?case by simp
next
  case 6
  then show ?case by simp
qed

declare dfs.simps [simp del]


section \<open>Dictionaries and the assignment of ids\<close>

lemma dict_get_dict_set: "dict_get (dict_set d k v) k' = (if k' = k then Some v else dict_get d k')"
  by (induction d) auto

lemma dict_set_twice: "dict_set (dict_set d k v) k v' = dict_set d k v'"
  by (induction d) auto

lemma task_get_dict_set: "k' \<noteq> k \<Longrightarrow> task_get (dict_set t k v) k' = task_get t k'"
  by (simp add: task_get_def dict_get_dict_set)

lemma assign_ids_Cons:
  "assign_ids idx (t # ts) g c =
     (if \<not> hashable (internal_id_of idx t)
      then (dict_set t ''_internal_id'' (internal_id_of idx t) # ts, Inl TypeError)
      else (dict_set t ''_internal_id'' (internal_id_of idx t)
              # fst (assign_ids (Suc idx) ts (dict_set g (eq_repr (internal_id_of idx t)) [])
                       (dict_set c (eq_repr (internal_id_of idx t)) 0)),
            snd (assign_ids (Suc idx) ts (dict_set g (eq_repr (internal_id_of idx t)) [])
                       (dict_set c (eq_repr (internal_id_of idx t)) 0))))"
  by (simp add: Let_def split: prod.splits)

declare assign_ids.simps(2) [simp del]

lemma internal_id_of_dict_set [simp]:
  "internal_id_of idx (dict_set t ''_internal_id'' v) = internal_id_of idx t"
  by (simp add: internal_id_of_def task_get_dict_set)

lemma assign_ids_again:
  "assign_ids idx (fst (assign_ids idx ts g c)) g c = assign_ids idx ts g c"
proof (induction ts arbitrary: idx g c)
  case Nil
  then show ?case by simp
next
  case (Cons t ts)
  show ?case
    by (simp add: assign_ids_Cons dict_set_twice Cons.IH)
qed

lemma assign_ids_length: "length (fst (assign_ids idx ts g c)) = length ts"
  by (induction ts arbitrary: idx g c) (simp_all add: assign_ids_Cons)

lemma build_again:
  "build_dependency_graph e (fst (build_dependency_graph e tasks)) = build_dependency_graph e tasks"
proof -
  obtain ts r where a: "assign_ids 0 tasks [] [] = (ts, r)"
    by (cases "assign_ids 0 tasks [] []")
  have "assign_ids 0 ts [] [] = (ts, r)"
    using assign_ids_again [of 0 tasks "[]" "[]"] a by simp
  then show ?thesis using a
    by (auto simp: build_dependency_graph_def split: sum.splits prod.splits)
qed

lemma build_length: "length (fst (build_dependency_graph e tasks)) = length tasks"
  using assign_ids_length [of 0 tasks "[]" "[]"]
  by (auto simp: build_dependency_graph_def split: sum.splits prod.splits)

lemma fst_analyze:
  "fst (analyze_tasks e tasks s w) = (if tasks = [] then [] else fst (build_dependency_graph e tasks))"
  by (auto simp: analyze_tasks_def split: sum.splits prod.splits)

section \<open>A second call on the same batch\<close>

text \<open>
  Claim C9. With the day fixed, a second call of \<open>analyze_tasks\<close> on the batch as the
  first call left it, with the injected \<open>_internal_id\<close> entries, and with the same
  strategy and weights, gives what the first call gave, the returned records or the
  error raised, and leaves the batch as it is. The functions take no other state.
\<close>

theorem analyze_twice:
  "analyze_tasks e (fst (analyze_tasks e tasks strategy weights)) strategy weights
     = analyze_tasks e tasks strategy weights"
proof (cases "tasks = []")
  case True
  then show ?thesis by (simp add: analyze_tasks_def)
next
  case False
  let ?ts = "fst (build_dependency_graph e tasks)"
  have ne: "?ts \<noteq> []"
    using build_length [of e tasks] False by (metis length_0_conv)
  have "analyze_tasks e ?ts strategy weights = analyze_tasks e tasks strategy weights"
    using False ne build_again [of e tasks] by (simp add: analyze_tasks_def)
  then show ?thesis using False by (simp add: fst_analyze)
qed

section \<open>Urgency of overdue tasks\<close>

lemma str_nat_10: "str_nat 10 = ''10''"
  by code_simp

lemma str_nat_7: "str_nat 7 = ''7''"
  by code_simp

text \<open>
  Claim C3. For a due date strictly before today the urgency scorer returns
  \<open>clamp(10 + max(days_until, -7), 7, 10)\<close>, a score between 7 and 10, and a reason that
  reports the uncapped number of overdue days; a task overdue by 10 days and one
  overdue by 7 days get the same score 7 and different reasons.
\<close>

theorem urgency_overdue:
  "d < today e \<Longrightarrow>
     (\<exists>u r. compute_urgency_score e (VDate d) = Inr (of_int u, r)
        \<and> u = clamp (10 + max (d - today e) (- 7)) 7 10
        \<and> 7 \<le> u \<and> u \<le> 10
        \<and> r = ''overdue by '' @ str_int (today e - d) @ '' days'')
     \<and> compute_urgency_score e (VDate (today e - 10)) = Inr (7, ''overdue by 10 days'')
     \<and> compute_urgency_score e (VDate (today e - 7)) = Inr (7, ''overdue by 7 days'')"
  by (simp add: compute_urgency_score_def safe_days_until_due_def clamp_def Let_def
        str_int_def str_nat_10 str_nat_7)

theorem urgency_overdue_witness:
  "(738995::int) < today env0
   \<and> compute_urgency_score env0 (VDate 738995) = Inr (7, ''overdue by 5 days'')
   \<and> compute_urgency_score env0 (VDate 738999) = Inr (9, ''overdue by 1 days'')"
proof -
  have h: "(738995::int) < today env0" by (simp add: env0_def)
  have s5: "str_int 5 = ''5''" by code_simp
  have s1: "str_int 1 = ''1''" by code_simp
  have "compute_urgency_score env0 (VDate 738999) = Inr (9, ''overdue by 1 days'')"
    by (simp add: compute_urgency_score_def safe_days_until_due_def clamp_def Let_def env0_def s1)
  then show ?thesis using h urgency_overdue [OF h]
    by (auto simp add: env0_def clamp_def s5)
qed

section \<open>Weights of the balanced strategy\<close>

lemma dict_get_map_of: "dict_get d k = map_of d k"
  by (induction d) auto

lemma map_of_Flt:
  "map_of (map (\<lambda>(k, x). (k, Flt x)) rs) k = map_option Flt (map_of rs k)"
  by (induction rs) auto

text \<open>
  Claim C4, amended. For every non-empty weights mapping the balanced score is the
  weighted sum in which each of the four weights is the supplied value when its key
  is present and 0 when it is missing; when the supplied weights are finite, this is
  the sum of the four products as numbers. For the empty mapping, as when no mapping
  is passed, the default weights 0.4, 0.3, 0.2 and 0.1 are used.
\<close>

theorem smart_balance_weights:
  "ws \<noteq> [] \<Longrightarrow>
     score_smart_balance importance urgency effort blocks (Some ws) =
       fl_add (fl_add (fl_add
         (fl_mul (case map_of ws ''importance'' of None \<Rightarrow> Flt 0 | Some x \<Rightarrow> x) (Flt importance))
         (fl_mul (case map_of ws ''urgency'' of None \<Rightarrow> Flt 0 | Some x \<Rightarrow> x) (Flt urgency)))
         (fl_mul (case map_of ws ''effort'' of None \<Rightarrow> Flt 0 | Some x \<Rightarrow> x) (Flt effort)))
         (fl_mul (case map_of ws ''dependencies'' of None \<Rightarrow> Flt 0 | Some x \<Rightarrow> x)
            (Flt (of_int blocks)))
     \<and> (\<forall>rs. ws = map (\<lambda>(k, x). (k, Flt x)) rs \<longrightarrow>
          score_smart_balance importance urgency effort blocks (Some ws) =
            Flt ((case map_of rs ''importance'' of None \<Rightarrow> 0 | Some x \<Rightarrow> x) * importance
                 + (case map_of rs ''urgency'' of None \<Rightarrow> 0 | Some x \<Rightarrow> x) * urgency
                 + (case map_of rs ''effort'' of None \<Rightarrow> 0 | Some x \<Rightarrow> x) * effort
                 + (case map_of rs ''dependencies'' of None \<Rightarrow> 0 | Some x \<Rightarrow> x) * of_int blocks))
     \<and> score_smart_balance importance urgency effort blocks (Some []) =
         Flt (4 / 10 * importance + 3 / 10 * urgency + 2 / 10 * effort + 1 / 10 * of_int blocks)
     \<and> score_smart_balance importance urgency effort blocks None =
         Flt (4 / 10 * importance + 3 / 10 * urgency + 2 / 10 * effort + 1 / 10 * of_int blocks)"
  by (auto simp: score_smart_balance_def weight_get_def dict_get_map_of SMART_WEIGHTS_def
        map_of_Flt split: option.splits)

theorem smart_balance_weights_witness:
  "[(''urgency'', Flt 1)] \<noteq> []
   \<and> score_smart_balance 5 7 6 2 (Some [(''urgency'', Flt 1)]) = Flt 7"
  using smart_balance_weights [of "[(''urgency'', Flt 1)]" 5 7 6 2] by simp

text \<open>
  The claim as stated fails for the empty mapping: all four keys are missing, yet the
  score is not the sum with all weights 0.
\<close>

theorem smart_balance_empty_weights_counterexample:
  "score_smart_balance 5 5 6 0 (Some []) \<noteq>
     fl_add (fl_add (fl_add
       (fl_mul (weight_get [] ''importance'') (Flt 5))
       (fl_mul (weight_get [] ''urgency'') (Flt 5)))
       (fl_mul (weight_get [] ''effort'') (Flt 6)))
       (fl_mul (weight_get [] ''dependencies'') (Flt (of_int 0)))"
  by (simp add: score_smart_balance_def weight_get_def SMART_WEIGHTS_def)

section \<open>Equality and order of values\<close>

lemma fl_lt_irrefl [simp]: "\<not> fl_lt x x"
  by (cases x) auto

lemma fl_lt_asym: "fl_lt x y \<Longrightarrow> \<not> fl_lt y x"
  by (cases x; cases y) auto

lemma fl_lt_trans: "fl_lt x y \<Longrightarrow> fl_lt y z \<Longrightarrow> fl_lt x z"
  by (cases x; cases y; cases z) auto

lemma fl_lt_trichotomy: "x \<noteq> NaN \<Longrightarrow> y \<noteq> NaN \<Longrightarrow> \<not> fl_lt x y \<Longrightarrow> x \<noteq> y \<Longrightarrow> fl_lt y x"
  by (cases x; cases y) auto

lemma fl_lt_neq: "fl_lt x y \<Longrightarrow> x \<noteq> y"
  by (cases x; cases y) auto

lemma eq_repr_idem [simp]: "eq_repr (eq_repr a) = eq_repr a"
  by (induction a) (auto simp: map_idI)

lemma has_nan_eq_repr [simp]: "has_nan (eq_repr a) = has_nan a"
  by (induction a) (auto simp: list_ex_iff)

lemma has_nan_cong: "eq_repr a = eq_repr b \<Longrightarrow> has_nan a = has_nan b"
  by (metis has_nan_eq_repr)

lemma py_eq_sym: "py_eq a b \<Longrightarrow> py_eq b a"
  using has_nan_cong [of a b] by (auto simp: py_eq_def)

lemma py_eq_trans: "py_eq a b \<Longrightarrow> py_eq b c \<Longrightarrow> py_eq a c"
  by (auto simp: py_eq_def)

lemma py_eq_refl: "\<not> has_nan a \<Longrightarrow> py_eq a a"
  by (simp add: py_eq_def)

lemma py_eq_eq_repr [simp]: "py_eq (eq_repr a) (eq_repr b) = py_eq a b"
  by (simp add: py_eq_def)

lemma num_of_eq_repr [simp]: "num_of (eq_repr a) = num_of a"
  by (cases a) auto

lemma eq_repr_VFloat_iff [simp]:
  "(eq_repr a = VFloat x) = (num_of a = Some x)"
  "(VFloat x = eq_repr a) = (num_of a = Some x)"
  by (cases a; auto)+

lemma eq_repr_other_iff [simp]:
  "(eq_repr a = VNone) = (a = VNone)"
  "(VNone = eq_repr a) = (a = VNone)"
  "(eq_repr a = VStr s) = (a = VStr s)"
  "(VStr s = eq_repr a) = (a = VStr s)"
  "(eq_repr a = VDate d) = (a = VDate d)"
  "(VDate d = eq_repr a) = (a = VDate d)"
  "eq_repr a \<noteq> VBool b"
  "VBool b \<noteq> eq_repr a"
  "eq_repr a \<noteq> VInt n"
  "VInt n \<noteq> eq_repr a"
  by (cases a; auto)+

lemma eq_repr_VList_iff [simp]:
  "(eq_repr a = VList ys) = (\<exists>xs. a = VList xs \<and> map eq_repr xs = ys)"
  "(VList ys = eq_repr a) = (\<exists>xs. a = VList xs \<and> map eq_repr xs = ys)"
  by (cases a; auto)+

lemma py_lt_eq_repr:
  "py_lt a b = py_lt (eq_repr a) (eq_repr b)"
  "lt_list xs ys = lt_list (map eq_repr xs) (map eq_repr ys)"
  by (induction a b and xs ys rule: py_lt_lt_list.induct) auto

lemma py_lt_repr_cong:
  "eq_repr a = eq_repr a' \<Longrightarrow> eq_repr b = eq_repr b' \<Longrightarrow> py_lt a b = py_lt a' b'"
  using py_lt_eq_repr(1) [of a b] py_lt_eq_repr(1) [of a' b'] by simp

lemma py_lt_cong: "py_eq a a' \<Longrightarrow> py_eq b b' \<Longrightarrow> py_lt a b = py_lt a' b'"
  using py_lt_repr_cong [of a a' b b'] by (simp add: py_eq_def)

lemma py_lt_num_num:
  "num_of a = Some x \<Longrightarrow> num_of b = Some y \<Longrightarrow> py_lt a b = Inr (fl_lt x y)"
  by (cases a; cases b; simp)

lemma py_lt_num_other:
  "num_of a = Some x \<Longrightarrow> num_of b = None \<Longrightarrow> py_lt a b = Inl TypeError"
  by (cases a; cases b; simp)

lemma py_lt_num_True:
  assumes "num_of a = Some x" "py_lt a b = Inr True"
  obtains y where "num_of b = Some y" "fl_lt x y"
proof (cases "num_of b")
  case None
  then show ?thesis using py_lt_num_other [OF assms(1) None] assms(2) by simp
next
  case (Some y)
  then show ?thesis using py_lt_num_num [OF assms(1) Some] assms(2) that by simp
qed

lemma py_lt_num_False:
  assumes "num_of a = Some x" "py_lt a b = Inr False"
  obtains y where "num_of b = Some y" "\<not> fl_lt x y"
proof (cases "num_of b")
  case None
  then show ?thesis using py_lt_num_other [OF assms(1) None] assms(2) by simp
next
  case (Some y)
  then show ?thesis using py_lt_num_num [OF assms(1) Some] assms(2) that by simp
qed

lemma eq_repr_num: "num_of a = Some x \<Longrightarrow> eq_repr a = VFloat x"
  by simp

lemma has_nan_num: "num_of a = Some x \<Longrightarrow> has_nan a = (x = NaN)"
  by (cases a) auto

lemma py_lt_VStr:
  "py_lt (VStr s) b = Inr r \<Longrightarrow> \<exists>t. b = VStr t \<and> r = (s < t)"
  by (cases b) auto

lemma py_lt_VDate:
  "py_lt (VDate d) b = Inr r \<Longrightarrow> \<exists>d'. b = VDate d' \<and> r = (d < d')"
  by (cases b) auto

lemma py_lt_VList:
  "py_lt (VList xs) b = Inr r \<Longrightarrow> \<exists>ys. b = VList ys \<and> lt_list xs ys = Inr r"
  by (cases b) auto

lemma py_lt_VNone: "py_lt VNone b \<noteq> Inr r"
  by (cases b) auto

text \<open>The three properties of the numbers, for an operand of any of the numeric types.\<close>

lemma num_neq_repr:
  assumes "num_of a = Some x" "py_lt a b = Inr True"
  shows "eq_repr a \<noteq> eq_repr b"
proof -
  obtain y where y: "num_of b = Some y" "fl_lt x y" by (rule py_lt_num_True [OF assms])
  have ne: "x \<noteq> y" using fl_lt_neq [OF y(2)] .
  have ea: "eq_repr a = VFloat x" by (rule eq_repr_num [OF assms(1)])
  have eb: "eq_repr b = VFloat y" by (rule eq_repr_num [OF y(1)])
  show ?thesis unfolding ea eb using ne by simp
qed

lemma num_asym:
  assumes "num_of a = Some x" "py_lt a b = Inr True"
  shows "py_lt b a = Inr False"
proof -
  obtain y where y: "num_of b = Some y" "fl_lt x y" by (rule py_lt_num_True [OF assms])
  show ?thesis using py_lt_num_num [OF y(1) assms(1)] fl_lt_asym [OF y(2)] by simp
qed

lemma num_trichotomy:
  assumes "num_of a = Some x" "py_lt a b = Inr False" "\<not> py_eq a b"
    and "\<not> has_nan a" "\<not> has_nan b"
  shows "py_lt b a = Inr True"
proof -
  obtain y where y: "num_of b = Some y" "\<not> fl_lt x y"
    by (rule py_lt_num_False [OF assms(1,2)])
  have n: "x \<noteq> NaN" "y \<noteq> NaN"
    using assms(4,5) has_nan_num [OF assms(1)] has_nan_num [OF y(1)] by simp_all
  have "eq_repr a \<noteq> eq_repr b" using assms(3,4) by (simp add: py_eq_def)
  then have "x \<noteq> y" using eq_repr_num [OF assms(1)] eq_repr_num [OF y(1)] by simp
  then have "fl_lt y x" using fl_lt_trichotomy [OF n y(2)] by simp
  then show ?thesis using py_lt_num_num [OF y(1) assms(1)] by simp
qed

lemma num_trans:
  assumes "num_of a = Some x" "py_lt a b = Inr True" "py_lt b c = Inr True"
  shows "py_lt a c = Inr True"
proof -
  obtain y where y: "num_of b = Some y" "fl_lt x y" by (rule py_lt_num_True [OF assms(1,2)])
  obtain z where z: "num_of c = Some z" "fl_lt y z" by (rule py_lt_num_True [OF y(1) assms(3)])
  show ?thesis using py_lt_num_num [OF assms(1) z(1)] fl_lt_trans [OF y(2) z(2)] by simp
qed

lemma lt_list_neq_repr:
  assumes "\<And>x y. x \<in> set xs \<Longrightarrow> py_lt x y = Inr True \<Longrightarrow> eq_repr x \<noteq> eq_repr y"
  shows "lt_list xs ys = Inr True \<Longrightarrow> map eq_repr xs \<noteq> map eq_repr ys"
  using assms
proof (induction xs arbitrary: ys)
  case Nil
  from Nil.prems(1) show ?case by (cases ys) auto
next
  case (Cons x xs)
  from Cons.prems(1) obtain y ys' where ys: "ys = y # ys'" by (cases ys) auto
  show ?case
  proof (cases "py_eq x y")
    case True
    then have "lt_list xs ys' = Inr True" using Cons.prems(1) ys by simp
    then have "map eq_repr xs \<noteq> map eq_repr ys'"
      using Cons.IH [of ys'] Cons.prems(2) by (meson list.set_intros(2))
    then show ?thesis using ys by simp
  next
    case False
    then have "py_lt x y = Inr True" using Cons.prems(1) ys by simp
    then have "eq_repr x \<noteq> eq_repr y" using Cons.prems(2) [of x y] by simp
    then show ?thesis using ys by simp
  qed
qed

lemma py_lt_neq_repr: "py_lt a b = Inr True \<Longrightarrow> eq_repr a \<noteq> eq_repr b"
proof (induction a arbitrary: b)
  case (VList xs)
  obtain ys where b: "b = VList ys" and xy: "lt_list xs ys = Inr True"
    using py_lt_VList [OF VList.prems] by auto
  have "map eq_repr xs \<noteq> map eq_repr ys"
    using lt_list_neq_repr [of xs ys] VList.IH xy by blast
  then show ?case using b by simp
next
  case VNone
  then show ?case using py_lt_VNone by blast
next
  case (VBool x)
  show ?case by (rule num_neq_repr [OF _ VBool.prems]) simp
next
  case (VInt x)
  show ?case by (rule num_neq_repr [OF _ VInt.prems]) simp
next
  case (VFloat x)
  show ?case by (rule num_neq_repr [OF _ VFloat.prems]) simp
next
  case (VStr x)
  then show ?case using py_lt_VStr [OF VStr.prems] by auto
next
  case (VDate x)
  then show ?case using py_lt_VDate [OF VDate.prems] by auto
qed

lemma py_lt_irrefl: "py_lt a b = Inr True \<Longrightarrow> \<not> py_eq a b"
  using py_lt_neq_repr [of a b] by (auto simp: py_eq_def)

lemma lt_list_asym:
  assumes "\<And>x y. x \<in> set xs \<Longrightarrow> py_lt x y = Inr True \<Longrightarrow> py_lt y x = Inr False"
  shows "lt_list xs ys = Inr True \<Longrightarrow> lt_list ys xs = Inr False"
  using assms
proof (induction xs arbitrary: ys)
  case Nil
  from Nil.prems(1) show ?case by (cases ys) auto
next
  case (Cons x xs)
  from Cons.prems(1) obtain y ys' where ys: "ys = y # ys'" by (cases ys) auto
  show ?case
  proof (cases "py_eq x y")
    case True
    then have "lt_list xs ys' = Inr True" using Cons.prems(1) ys by simp
    then have "lt_list ys' xs = Inr False"
      using Cons.IH [of ys'] Cons.prems(2) by (meson list.set_intros(2))
    then show ?thesis using ys py_eq_sym [OF True] by simp
  next
    case False
    then have lt: "py_lt x y = Inr True" using Cons.prems(1) ys by simp
    have "\<not> py_eq y x" using False py_eq_sym by blast
    moreover have "py_lt y x = Inr False" using Cons.prems(2) [of x y] lt by simp
    ultimately show ?thesis using ys by simp
  qed
qed

lemma py_lt_asym: "py_lt a b = Inr True \<Longrightarrow> py_lt b a = Inr False"
proof (induction a arbitrary: b)
  case (VList xs)
  obtain ys where b: "b = VList ys" and xy: "lt_list xs ys = Inr True"
    using py_lt_VList [OF VList.prems] by auto
  have "lt_list ys xs = Inr False"
    using lt_list_asym [of xs ys] VList.IH xy by blast
  then show ?case using b by simp
next
  case VNone
  then show ?case using py_lt_VNone by blast
next
  case (VBool x)
  show ?case by (rule num_asym [OF _ VBool.prems]) simp
next
  case (VInt x)
  show ?case by (rule num_asym [OF _ VInt.prems]) simp
next
  case (VFloat x)
  show ?case by (rule num_asym [OF _ VFloat.prems]) simp
next
  case (VStr x)
  then show ?case using py_lt_VStr [OF VStr.prems] by auto
next
  case (VDate x)
  then show ?case using py_lt_VDate [OF VDate.prems] by auto
qed

lemma lt_list_trichotomy:
  assumes "\<And>x y. x \<in> set xs \<Longrightarrow> py_lt x y = Inr False \<Longrightarrow> \<not> py_eq x y
             \<Longrightarrow> \<not> has_nan x \<Longrightarrow> \<not> has_nan y \<Longrightarrow> py_lt y x = Inr True"
  shows "lt_list xs ys = Inr False \<Longrightarrow> map eq_repr xs \<noteq> map eq_repr ys
     \<Longrightarrow> \<not> list_ex has_nan xs \<Longrightarrow> \<not> list_ex has_nan ys \<Longrightarrow> lt_list ys xs = Inr True"
  using assms
proof (induction xs arbitrary: ys)
  case Nil
  from Nil.prems(1,2) show ?case by (cases ys) auto
next
  case (Cons x xs)
  show ?case
  proof (cases ys)
    case Nil
    then show ?thesis by simp
  next
    case ys: (Cons y ys')
    have nx: "\<not> has_nan x" "\<not> list_ex has_nan xs" using Cons.prems(3) by simp_all
    have ny: "\<not> has_nan y" "\<not> list_ex has_nan ys'" using Cons.prems(4) ys by simp_all
    show ?thesis
    proof (cases "py_eq x y")
      case True
      then have 1: "lt_list xs ys' = Inr False" using Cons.prems(1) ys by simp
      have 2: "map eq_repr xs \<noteq> map eq_repr ys'"
        using Cons.prems(2) ys True by (simp add: py_eq_def)
      have "lt_list ys' xs = Inr True"
        using Cons.IH [OF 1 2 nx(2) ny(2)] Cons.prems(5) by (meson list.set_intros(2))
      then show ?thesis using ys py_eq_sym [OF True] by simp
    next
      case False
      then have lt: "py_lt x y = Inr False" using Cons.prems(1) ys by simp
      have "\<not> py_eq y x" using False py_eq_sym by blast
      moreover have "py_lt y x = Inr True"
        using Cons.prems(5) [of x y] lt False nx(1) ny(1) by simp
      ultimately show ?thesis using ys by simp
    qed
  qed
qed

lemma py_lt_trichotomy:
  "py_lt a b = Inr False \<Longrightarrow> \<not> py_eq a b \<Longrightarrow> \<not> has_nan a \<Longrightarrow> \<not> has_nan b
     \<Longrightarrow> py_lt b a = Inr True"
proof (induction a arbitrary: b)
  case (VList xs)
  obtain ys where b: "b = VList ys" and xy: "lt_list xs ys = Inr False"
    using py_lt_VList [OF VList.prems(1)] by auto
  have 1: "map eq_repr xs \<noteq> map eq_repr ys"
    using VList.prems(2,3) b by (simp add: py_eq_def)
  have 2: "\<not> list_ex has_nan xs" "\<not> list_ex has_nan ys"
    using VList.prems(3,4) b by simp_all
  have "lt_list ys xs = Inr True"
    using lt_list_trichotomy [of xs ys, OF _ xy 1 2] VList.IH by blast
  then show ?case using b by simp
next
  case VNone
  then show ?case using py_lt_VNone by blast
next
  case (VBool x)
  show ?case by (rule num_trichotomy [OF _ VBool.prems]) simp
next
  case (VInt x)
  show ?case by (rule num_trichotomy [OF _ VInt.prems]) simp
next
  case (VFloat x)
  show ?case by (rule num_trichotomy [OF _ VFloat.prems]) simp
next
  case (VStr x)
  then show ?case using py_lt_VStr [OF VStr.prems(1)] by (auto simp: py_eq_def)
next
  case (VDate x)
  then show ?case using py_lt_VDate [OF VDate.prems(1)] by (auto simp: py_eq_def)
qed

lemma lt_list_trans:
  assumes "\<And>x y z. x \<in> set xs \<Longrightarrow> py_lt x y = Inr True \<Longrightarrow> py_lt y z = Inr True
             \<Longrightarrow> py_lt x z = Inr True"
  shows "lt_list xs ys = Inr True \<Longrightarrow> lt_list ys zs = Inr True \<Longrightarrow> lt_list xs zs = Inr True"
  using assms
proof (induction xs arbitrary: ys zs)
  case Nil
  from Nil.prems(1,2) show ?case by (cases ys; cases zs) auto
next
  case (Cons x xs)
  from Cons.prems(1) obtain y ys' where ys: "ys = y # ys'" by (cases ys) auto
  from Cons.prems(2) ys obtain z zs' where zs: "zs = z # zs'" by (cases zs) auto
  have tr: "\<And>y z. py_lt x y = Inr True \<Longrightarrow> py_lt y z = Inr True \<Longrightarrow> py_lt x z = Inr True"
    using Cons.prems(3) by simp
  show ?case
  proof (cases "py_eq x y")
    case xy: True
    show ?thesis
    proof (cases "py_eq y z")
      case True
      then have "py_eq x z" using xy py_eq_trans by blast
      moreover have "lt_list xs ys' = Inr True" "lt_list ys' zs' = Inr True"
        using Cons.prems(1,2) xy True ys zs by simp_all
      then have "lt_list xs zs' = Inr True"
        using Cons.IH [of ys' zs'] Cons.prems(3) by (meson list.set_intros(2))
      ultimately show ?thesis using zs by simp
    next
      case False
      then have nxz: "\<not> py_eq x z" using xy py_eq_sym py_eq_trans by blast
      have "py_lt y z = Inr True" using Cons.prems(2) False ys zs by simp
      then have "py_lt x z = Inr True"
        using py_lt_repr_cong [of x y z z] xy by (simp add: py_eq_def)
      then show ?thesis using nxz zs by simp
    qed
  next
    case nxy: False
    then have xy: "py_lt x y = Inr True" using Cons.prems(1) ys by simp
    show ?thesis
    proof (cases "py_eq y z")
      case True
      then have nxz: "\<not> py_eq x z" using nxy py_eq_sym py_eq_trans by blast
      have "py_lt x z = Inr True"
        using py_lt_repr_cong [of x x y z] xy True by (simp add: py_eq_def)
      then show ?thesis using nxz zs by simp
    next
      case False
      then have "py_lt y z = Inr True" using Cons.prems(2) ys zs by simp
      then have xz: "py_lt x z = Inr True" using tr xy by blast
      then have "\<not> py_eq x z" using py_lt_irrefl by blast
      then show ?thesis using xz zs by simp
    qed
  qed
qed

lemma py_lt_trans:
  "py_lt a b = Inr True \<Longrightarrow> py_lt b c = Inr True \<Longrightarrow> py_lt a c = Inr True"
proof (induction a arbitrary: b c)
  case (VList xs)
  obtain ys where b: "b = VList ys" and xy: "lt_list xs ys = Inr True"
    using py_lt_VList [OF VList.prems(1)] by auto
  obtain zs where c: "c = VList zs" and yz: "lt_list ys zs = Inr True"
    using py_lt_VList [of ys c True] VList.prems(2) b by auto
  have "lt_list xs zs = Inr True"
    using lt_list_trans [of xs ys zs] VList.IH xy yz by blast
  then show ?case using c by simp
next
  case VNone
  then show ?case using py_lt_VNone by blast
next
  case (VBool x)
  show ?case by (rule num_trans [OF _ VBool.prems]) simp
next
  case (VInt x)
  show ?case by (rule num_trans [OF _ VInt.prems]) simp
next
  case (VFloat x)
  show ?case by (rule num_trans [OF _ VFloat.prems]) simp
next
  case (VStr s)
  obtain t where b: "b = VStr t" "s < t" using py_lt_VStr [OF VStr.prems(1)] by auto
  obtain u where c: "c = VStr u" "t < u" using py_lt_VStr [of t c True] VStr.prems(2) b by auto
  show ?case using b c by auto
next
  case (VDate d)
  obtain d' where b: "b = VDate d'" "d < d'" using py_lt_VDate [OF VDate.prems(1)] by auto
  obtain d'' where c: "c = VDate d''" "d' < d''"
    using py_lt_VDate [of d' c True] VDate.prems(2) b by auto
  show ?case using b c by auto
qed

section \<open>Order of sort keys and the stable sort\<close>

lemma fl_eq_sym: "fl_eq x y \<Longrightarrow> fl_eq y x"
  by (auto simp: fl_eq_def)

lemma key_eq_refl: "nan_free k \<Longrightarrow> key_eq k k"
  by (simp add: key_eq_def nan_free_def fl_eq_def py_eq_def)

lemma key_eq_sym: "key_eq a b \<Longrightarrow> key_eq b a"
  by (auto simp: key_eq_def fl_eq_def dest: py_eq_sym)

lemma key_eq_trans: "key_eq a b \<Longrightarrow> key_eq b c \<Longrightarrow> key_eq a c"
  by (auto simp: key_eq_def fl_eq_def dest: py_eq_trans)

lemma key_lt_eq: "key_eq a b \<Longrightarrow> key_lt a b = Inr False"
  by (cases a; cases b) (simp add: key_eq_def)

lemma key_lt_cong: "key_eq a a' \<Longrightarrow> key_eq b b' \<Longrightarrow> key_lt a b = key_lt a' b'"
proof (cases a; cases b; cases a'; cases b')
  fix s1 i1 s2 i2 s1' i1' s2' i2'
  assume k: "key_eq a a'" "key_eq b b'"
    and e: "a = (s1, i1)" "b = (s2, i2)" "a' = (s1', i1')" "b' = (s2', i2')"
  have s: "s1 = s1'" "s2 = s2'" and i: "py_eq i1 i1'" "py_eq i2 i2'"
    using k e by (auto simp: key_eq_def fl_eq_def)
  have "py_eq i1 i2 = py_eq i1' i2'"
    using i py_eq_sym py_eq_trans by blast
  moreover have "py_lt i1 i2 = py_lt i1' i2'" using py_lt_cong [OF i] .
  ultimately show ?thesis using s e by simp
qed

lemma key_lt_asym: "key_lt a b = Inr True \<Longrightarrow> key_lt b a = Inr False"
proof (cases a; cases b)
  fix s1 i1 s2 i2
  assume e: "a = (s1, i1)" "b = (s2, i2)" and lt: "key_lt a b = Inr True"
  show ?thesis
  proof (cases "fl_eq s1 s2")
    case True
    then have 1: "py_lt i1 i2 = Inr True" using lt e by (auto split: if_splits)
    have 2: "py_lt i2 i1 = Inr False" using py_lt_asym [OF 1] .
    show ?thesis using True 2 e fl_eq_sym [OF True] by simp
  next
    case False
    then have "fl_lt s1 s2" using lt e by simp
    then have "\<not> fl_lt s2 s1" using fl_lt_asym by blast
    moreover have "\<not> fl_eq s2 s1" using False fl_eq_sym by blast
    ultimately show ?thesis using e by simp
  qed
qed

lemma key_lt_trichotomy:
  assumes "key_lt a b = Inr False" "\<not> key_eq a b" "nan_free a" "nan_free b"
  shows "key_lt b a = Inr True"
proof (cases a; cases b)
  fix s1 i1 s2 i2
  assume e: "a = (s1, i1)" "b = (s2, i2)"
  have n: "s1 \<noteq> NaN" "s2 \<noteq> NaN" "\<not> has_nan i1" "\<not> has_nan i2"
    using assms(3,4) e by (simp_all add: nan_free_def)
  show ?thesis
  proof (cases "fl_eq s1 s2")
    case True
    then have ne: "\<not> py_eq i1 i2" using assms(2) e by (simp add: key_eq_def)
    then have "py_lt i1 i2 = Inr False" using assms(1) e True by simp
    then have "py_lt i2 i1 = Inr True" using py_lt_trichotomy ne n by blast
    moreover have "\<not> py_eq i2 i1" using ne py_eq_sym by blast
    ultimately show ?thesis using e fl_eq_sym [OF True] by simp
  next
    case False
    then have 1: "\<not> fl_lt s1 s2" using assms(1) e by simp
    have "s1 \<noteq> s2" using False n by (auto simp: fl_eq_def)
    then have "fl_lt s2 s1" using fl_lt_trichotomy [OF n(1,2) 1] by simp
    moreover have "\<not> fl_eq s2 s1" using False fl_eq_sym by blast
    ultimately show ?thesis using e by simp
  qed
qed

lemma key_lt_True_cases:
  "key_lt (s1, i1) (s2, i2) = Inr True \<Longrightarrow>
     fl_lt s1 s2 \<or> (s1 = s2 \<and> s1 \<noteq> NaN \<and> py_lt i1 i2 = Inr True)"
  by (auto simp: fl_eq_def split: if_splits)

lemma key_lt_trans: "key_lt a b = Inr True \<Longrightarrow> key_lt b c = Inr True \<Longrightarrow> key_lt a c = Inr True"
proof (cases a; cases b; cases c)
  fix s1 i1 s2 i2 s3 i3
  assume a: "a = (s1, i1)" and b: "b = (s2, i2)" and c: "c = (s3, i3)"
  assume ab: "key_lt a b = Inr True" and bc: "key_lt b c = Inr True"
  have 1: "fl_lt s1 s2 \<or> (s1 = s2 \<and> s1 \<noteq> NaN \<and> py_lt i1 i2 = Inr True)"
    using key_lt_True_cases ab a b by simp
  have 2: "fl_lt s2 s3 \<or> (s2 = s3 \<and> s2 \<noteq> NaN \<and> py_lt i2 i3 = Inr True)"
    using key_lt_True_cases bc b c by simp
  show "key_lt a c = Inr True"
  proof (cases "fl_lt s1 s3")
    case True
    then have "\<not> fl_eq s1 s3" using fl_lt_neq by (auto simp: fl_eq_def)
    then show ?thesis using True a c by simp
  next
    case False
    then have s: "s1 = s2" "s2 = s3" "s1 \<noteq> NaN"
      and l12: "py_lt i1 i2 = Inr True" and l23: "py_lt i2 i3 = Inr True"
      using 1 2 fl_lt_trans by blast+
    have l13: "py_lt i1 i3 = Inr True" using py_lt_trans [OF l12 l23] .
    then have "\<not> py_eq i1 i3" using py_lt_irrefl by blast
    then show ?thesis using l13 s a c by (simp add: fl_eq_def)
  qed
qed

text \<open>On keys without NaN that can all be compared, "not less" is transitive.\<close>

lemma key_not_lt_trans:
  assumes "key_lt x y = Inr False" "key_lt y z = Inr False"
    and "\<not> isl (key_lt y x)" "\<not> isl (key_lt x z)"
    and "nan_free x" "nan_free y" "nan_free z"
  shows "key_lt x z = Inr False"
proof (rule ccontr)
  assume "key_lt x z \<noteq> Inr False"
  then have xz: "key_lt x z = Inr True" using assms(4) by (cases "key_lt x z") auto
  show False
  proof (cases "key_lt y x = Inr True")
    case True
    then have "key_lt y z = Inr True" using key_lt_trans xz by blast
    then show False using assms(2) by simp
  next
    case False
    then have "key_lt y x = Inr False" using assms(3) by (cases "key_lt y x") auto
    then have "key_eq x y"
      using key_lt_trichotomy [of x y] assms(1,5,6) by auto
    then have "key_lt x z = key_lt y z"
      using key_lt_cong [of x y z z] key_eq_refl [OF assms(7)] by simp
    then show False using xz assms(2) by simp
  qed
qed

lemma set_insort_desc [simp]: "set (insort_desc x ys) = insert x (set ys)"
  by (induction ys) auto

lemma mset_insort_desc [simp]: "mset (insort_desc x ys) = add_mset x (mset ys)"
  by (induction ys) auto

lemma mset_foldr_insort [simp]: "mset (foldr insort_desc xs []) = mset xs"
  by (induction xs) auto

lemma set_foldr_insort [simp]: "set (foldr insort_desc xs []) = set xs"
  by (induction xs) auto

lemma sorted_insort_desc:
  assumes "\<forall>a\<in>insert x (set ys). \<forall>b\<in>insert x (set ys). \<not> isl (key_lt (sort_key a) (sort_key b))"
    and "\<forall>a\<in>insert x (set ys). nan_free (sort_key a)"
    and "sorted_wrt not_below ys"
  shows "sorted_wrt not_below (insort_desc x ys)"
  using assms
proof (induction ys)
  case Nil
  then show ?case by simp
next
  case (Cons y ys)
  have cmp: "\<And>a b. a \<in> insert x (insert y (set ys)) \<Longrightarrow> b \<in> insert x (insert y (set ys))
               \<Longrightarrow> \<not> isl (key_lt (sort_key a) (sort_key b))"
    using Cons.prems(1) by (simp del: insert_iff) blast
  have nf: "\<And>a. a \<in> insert x (insert y (set ys)) \<Longrightarrow> nan_free (sort_key a)"
    using Cons.prems(2) by auto
  show ?case
  proof (cases "key_lt (sort_key x) (sort_key y) = Inr True")
    case True
    have 1: "sorted_wrt not_below (insort_desc x ys)"
      using Cons.IH Cons.prems by simp
    have 2: "not_below y x" using key_lt_asym [OF True] .
    have 3: "\<forall>z\<in>set ys. not_below y z" using Cons.prems(3) by simp
    show ?thesis using True 1 2 3 by simp
  next
    case False
    then have xy: "not_below x y" using cmp [of x y] by (cases "key_lt (sort_key x) (sort_key y)") auto
    have "\<forall>z\<in>set ys. not_below x z"
    proof
      fix z assume z: "z \<in> set ys"
      then have yz: "not_below y z" using Cons.prems(3) by simp
      show "not_below x z"
        using key_not_lt_trans [OF xy yz] cmp [of y x] cmp [of x z] nf [of x] nf [of y] nf [of z] z
        by simp
    qed
    then show ?thesis using False xy Cons.prems(3) by simp
  qed
qed

lemma sorted_foldr_insort:
  "\<forall>a\<in>set xs. \<forall>b\<in>set xs. \<not> isl (key_lt (sort_key a) (sort_key b))
     \<Longrightarrow> \<forall>a\<in>set xs. nan_free (sort_key a)
     \<Longrightarrow> sorted_wrt not_below (foldr insort_desc xs [])"
proof (induction xs)
  case Nil
  then show ?case by simp
next
  case (Cons x xs)
  have "sorted_wrt not_below (foldr insort_desc xs [])" using Cons by simp
  then show ?case using sorted_insort_desc [of x "foldr insort_desc xs []"] Cons.prems by simp
qed

lemma filter_insort_desc:
  "filter (\<lambda>y. key_eq (sort_key y) k) (insort_desc x ys) =
     (if key_eq (sort_key x) k then x # filter (\<lambda>y. key_eq (sort_key y) k) ys
      else filter (\<lambda>y. key_eq (sort_key y) k) ys)"
proof (induction ys)
  case Nil
  then show ?case by simp
next
  case (Cons y ys)
  have "key_lt (sort_key x) (sort_key y) = Inr True \<Longrightarrow> key_eq (sort_key x) k
          \<Longrightarrow> \<not> key_eq (sort_key y) k"
    using key_lt_eq [of "sort_key x" "sort_key y"] key_eq_trans key_eq_sym
    by (metis Inr_inject)
  then show ?case using Cons by auto
qed

lemma filter_foldr_insort:
  "filter (\<lambda>y. key_eq (sort_key y) k) (foldr insort_desc xs []) = filter (\<lambda>y. key_eq (sort_key y) k) xs"
  by (induction xs) (simp_all add: filter_insort_desc)

section \<open>Output records\<close>

lemma dict_get_dict_pop: "dict_get (dict_pop d k) k' = (if k' = k then None else dict_get d k')"
  unfolding dict_pop_def by (induction d) auto

lemma to_dict_get:
  "dict_get (to_dict st) k =
     (if k = ''has_cycle'' then Some (VBool (st_has_cycle st))
      else if k = ''explanation'' then Some (VStr (st_explanation st))
      else if k = ''strategy_used'' then Some (VStr (st_strategy st))
      else if k = ''score'' then Some (VFloat (st_score st))
      else if k = ''_internal_id'' then None
      else dict_get (st_task st) k)"
  by (simp add: to_dict_def dict_get_dict_set dict_get_dict_pop)

lemma record_key_to_dict [simp]: "record_key (to_dict st) = sort_key st"
  by (simp add: record_key_def sort_key_def to_dict_get)

lemma score_task_task: "score_task e t s dc w cs = Inr st \<Longrightarrow> st_task st = t"
  by (auto simp: score_task_def Let_def split: sum.splits prod.splits if_splits)

lemma score_all_tasks:
  "score_all e s dc w cyc ts = Inr scored \<Longrightarrow> map st_task scored = ts"
  by (induction ts arbitrary: scored) (auto split: sum.splits dest: score_task_task)

lemma sort_desc_Inr:
  "sort_desc xs = Inr ys \<Longrightarrow>
     ys = foldr insort_desc xs []
     \<and> (\<forall>a\<in>set xs. \<forall>b\<in>set xs. \<not> isl (key_lt (sort_key a) (sort_key b)))"
  by (auto simp: sort_desc_def list_all_iff split: if_splits)

lemma analyze_Inr:
  assumes "analyze_tasks e tasks s w = (tasks', Inr out)" "tasks \<noteq> []"
  obtains graph dependents cycle_nodes scored sorted_tasks where
    "build_dependency_graph e tasks = (tasks', Inr (graph, dependents))"
    "detect_cycles graph = Inr cycle_nodes"
    "score_all e s dependents w cycle_nodes tasks' = Inr scored"
    "sort_desc scored = Inr sorted_tasks"
    "out = map to_dict sorted_tasks"
  using assms
  by (auto simp: analyze_tasks_def split: prod.splits sum.splits)

lemma assign_ids_fst:
  "snd (assign_ids idx ts g c) = Inr gc \<Longrightarrow>
     fst (assign_ids idx ts g c)
       = map (\<lambda>(i, t). dict_set t ''_internal_id'' (internal_id_of i t)) (enumerate idx ts)"
  by (induction ts arbitrary: idx g c) (auto simp: assign_ids_Cons split: if_splits)

lemma build_fst:
  assumes "build_dependency_graph e tasks = (tasks', Inr gc)"
  shows "tasks' = map (\<lambda>(i, t). dict_set t ''_internal_id'' (internal_id_of i t)) (enumerate 0 tasks)"
proof -
  obtain ts r where a: "assign_ids 0 tasks [] [] = (ts, r)"
    by (cases "assign_ids 0 tasks [] []")
  then obtain gc' where "r = Inr gc'" and "ts = tasks'"
    using assms by (auto simp: build_dependency_graph_def split: sum.splits)
  then show ?thesis using assign_ids_fst [of 0 tasks "[]" "[]" gc'] a by simp
qed

lemma build_nth:
  assumes "build_dependency_graph e tasks = (tasks', Inr gc)" "i < length tasks"
  shows "tasks' ! i = dict_set (tasks ! i) ''_internal_id'' (internal_id_of i (tasks ! i))"
  using build_fst [OF assms(1)] assms(2) by (simp add: nth_enumerate_eq)


lemma not_below_desc:
  "not_below a b \<Longrightarrow> nan_free (sort_key a) \<Longrightarrow> nan_free (sort_key b) \<Longrightarrow>
     key_lt (sort_key b) (sort_key a) = Inr True \<or> key_eq (sort_key a) (sort_key b)"
  using key_lt_trichotomy [of "sort_key a" "sort_key b"] by blast

lemma desc_fst:
  "key_lt kb ka = Inr True \<or> key_eq ka kb \<Longrightarrow> fl_le (fst kb) (fst ka)"
  by (cases ka; cases kb) (auto simp: key_eq_def fl_le_def fl_eq_def split: if_splits)

lemma nan_free_out:
  "list_all (\<lambda>r. nan_free (record_key r)) (map to_dict sts)
     = (\<forall>a\<in>set sts. nan_free (sort_key a))"
  by (simp add: list_all_iff)

lemma sorted_desc_sort:
  assumes "sort_desc scored = Inr sorted_tasks"
    and nf: "\<forall>a\<in>set sorted_tasks. nan_free (sort_key a)"
  shows "sorted_wrt (\<lambda>a b. key_lt (sort_key b) (sort_key a) = Inr True
                            \<or> key_eq (sort_key a) (sort_key b)) sorted_tasks"
proof -
  have srt: "sorted_tasks = foldr insort_desc scored []"
    and cmp: "\<forall>a\<in>set scored. \<forall>b\<in>set scored. \<not> isl (key_lt (sort_key a) (sort_key b))"
    using sort_desc_Inr [OF assms(1)] by auto
  have nf': "\<forall>a\<in>set scored. nan_free (sort_key a)" using nf srt by simp
  have s1: "sorted_wrt not_below sorted_tasks"
    using sorted_foldr_insort [OF cmp nf'] srt by simp
  show ?thesis
  proof (rule sorted_wrt_mono_rel [OF _ s1])
    fix a b assume "a \<in> set sorted_tasks" "b \<in> set sorted_tasks" "not_below a b"
    then show "key_lt (sort_key b) (sort_key a) = Inr True \<or> key_eq (sort_key a) (sort_key b)"
      using not_below_desc [of a b] nf by blast
  qed
qed

lemma sorted_desc_out:
  assumes "sort_desc scored = Inr sorted_tasks"
    and "list_all (\<lambda>r. nan_free (record_key r)) (map to_dict sorted_tasks)"
  shows "sorted_wrt (\<lambda>a b. key_lt (record_key b) (record_key a) = Inr True
                          \<or> key_eq (record_key a) (record_key b)) (map to_dict sorted_tasks)"
  using sorted_desc_sort [OF assms(1)] assms(2) unfolding nan_free_out
  by (simp add: sorted_wrt_map)

lemma sorted_score_out:
  assumes "sort_desc scored = Inr sorted_tasks"
    and "list_all (\<lambda>r. nan_free (record_key r)) (map to_dict sorted_tasks)"
  shows "sorted_wrt (\<lambda>a b. fl_le (fst (record_key b)) (fst (record_key a)))
           (map to_dict sorted_tasks)"
proof -
  have nf: "\<forall>a\<in>set sorted_tasks. nan_free (sort_key a)"
    using assms(2) unfolding nan_free_out .
  have "sorted_wrt (\<lambda>a b. fl_le (fst (sort_key b)) (fst (sort_key a))) sorted_tasks"
    by (rule sorted_wrt_mono_rel [OF _ sorted_desc_sort [OF assms(1) nf]]) (rule desc_fst)
  then show ?thesis by (simp add: sorted_wrt_map)
qed

lemma stable_out:
  assumes "sort_desc scored = Inr sorted_tasks"
  shows "filter (\<lambda>r. key_eq (record_key r) k) (map to_dict sorted_tasks)
           = filter (\<lambda>r. key_eq (record_key r) k) (map to_dict scored)"
proof -
  have srt: "sorted_tasks = foldr insort_desc scored []"
    using sort_desc_Inr [OF assms] by auto
  show ?thesis
    by (simp only: filter_map o_def record_key_to_dict srt filter_foldr_insort)
qed

lemma mset_out:
  assumes "sort_desc scored = Inr sorted_tasks"
  shows "mset (map to_dict sorted_tasks) = mset (map to_dict scored)"
  using sort_desc_Inr [OF assms] by simp

lemma recs_fields1:
  assumes tk: "map st_task scored = tasks'" and len: "length scored = length tasks"
    and i: "i < length tasks"
  shows "st_task (scored ! i) = tasks' ! i"
proof -
  have "map st_task scored ! i = st_task (scored ! i)" using i len by simp
  then show ?thesis using tk by simp
qed

lemma recs_fields2:
  assumes "st_task (scored ! i) = t" and len: "length scored = length tasks"
    and i: "i < length tasks" and k: "k \<notin> added_keys"
  shows "dict_get (map to_dict scored ! i) k = dict_get t k"
proof -
  have "map to_dict scored ! i = to_dict (scored ! i)" using i len by simp
  moreover have "dict_get (to_dict (scored ! i)) k = dict_get (st_task (scored ! i)) k"
    using k unfolding added_keys_def to_dict_get by auto
  ultimately show ?thesis using assms(1) by simp
qed


lemma recs_fields3:
  assumes b: "build_dependency_graph e tasks = (tasks', Inr gc)"
    and i: "i < length tasks" and k: "k \<notin> added_keys"
  shows "dict_get (tasks' ! i) k = dict_get (tasks ! i) k"
proof -
  have "k \<noteq> ''_internal_id''" using k by (auto simp: added_keys_def)
  then show ?thesis unfolding build_nth [OF b i] by (simp add: dict_get_dict_set)
qed

lemma recs_length:
  assumes b: "build_dependency_graph e tasks = (tasks', Inr gc)"
    and sc: "score_all e strategy dependents weights cycle_nodes tasks' = Inr scored"
  shows "length scored = length tasks"
proof -
  have tk: "map st_task scored = tasks'" using score_all_tasks [OF sc] .
  have len': "length tasks' = length tasks" using build_length [of e tasks] b by simp
  show ?thesis using tk len' by (metis length_map)
qed

lemma recs_fields:
  assumes b: "build_dependency_graph e tasks = (tasks', Inr gc)"
    and sc: "score_all e strategy dependents weights cycle_nodes tasks' = Inr scored"
    and i: "i < length tasks" and k: "k \<notin> added_keys"
  shows "dict_get (map to_dict scored ! i) k = dict_get (tasks ! i) k"
proof -
  have tk: "map st_task scored = tasks'" using score_all_tasks [OF sc] .
  have len: "length scored = length tasks" by (rule recs_length [OF b sc])
  have "dict_get (map to_dict scored ! i) k = dict_get (tasks' ! i) k"
    by (rule recs_fields2 [OF recs_fields1 [OF tk len i] len i k])
  then show ?thesis using recs_fields3 [OF b i k] by simp
qed

section \<open>Order of the returned list\<close>

text \<open>
  Claim C2, amended. Whenever \<open>analyze_tasks\<close> returns a list, the list is a
  permutation of the records built for the tasks in input order. When no sort key of
  the list involves NaN, the list is in descending order of the pair (rounded score,
  raw importance entry, 0 when missing): the key of a later record is below, or equal
  to, the key of an earlier one, and in particular the scores never increase; and the
  records that are equal on both keys appear in their input order.
\<close>

theorem analyze_sorted_stable:
  assumes "analyze_tasks e tasks strategy weights = (tasks', Inr out)"
  shows "\<exists>recs. length recs = length tasks
            \<and> (\<forall>i<length tasks. \<forall>k. k \<notin> added_keys
                  \<longrightarrow> dict_get (recs ! i) k = dict_get (tasks ! i) k)
            \<and> mset out = mset recs
            \<and> (list_all (\<lambda>r. nan_free (record_key r)) out \<longrightarrow>
                 sorted_wrt (\<lambda>a b. key_lt (record_key b) (record_key a) = Inr True
                                  \<or> key_eq (record_key a) (record_key b)) out
                 \<and> sorted_wrt (\<lambda>a b. fl_le (fst (record_key b)) (fst (record_key a))) out
                 \<and> (\<forall>k. filter (\<lambda>r. key_eq (record_key r) k) out
                          = filter (\<lambda>r. key_eq (record_key r) k) recs))"
proof (cases "tasks = []")
  case True
  have out: "out = []" using assms unfolding analyze_tasks_def True by simp
  show ?thesis unfolding out True
    by (intro conjI exI [of _ "[]"]) simp_all
next
  case False
  obtain graph dependents cycle_nodes scored sorted_tasks where
    b: "build_dependency_graph e tasks = (tasks', Inr (graph, dependents))"
    and sc: "score_all e strategy dependents weights cycle_nodes tasks' = Inr scored"
    and so: "sort_desc scored = Inr sorted_tasks"
    and out: "out = map to_dict sorted_tasks"
    by (rule analyze_Inr [OF assms False])
  show ?thesis unfolding out
  proof (intro conjI exI [of _ "map to_dict scored"] allI impI)
    assume nf: "list_all (\<lambda>r. nan_free (record_key r)) (map to_dict sorted_tasks)"
    show "sorted_wrt (\<lambda>a b. key_lt (record_key b) (record_key a) = Inr True
                          \<or> key_eq (record_key a) (record_key b)) (map to_dict sorted_tasks)"
      by (rule sorted_desc_out [OF so nf])
    show "sorted_wrt (\<lambda>a b. fl_le (fst (record_key b)) (fst (record_key a)))
            (map to_dict sorted_tasks)"
      by (rule sorted_score_out [OF so nf])
    show "filter (\<lambda>r. key_eq (record_key r) k) (map to_dict sorted_tasks)
            = filter (\<lambda>r. key_eq (record_key r) k) (map to_dict scored)" for k
      by (rule stable_out [OF so])
  next
    show "length (map to_dict scored) = length tasks"
      using recs_length [OF b sc] by simp
    show "mset (map to_dict sorted_tasks) = mset (map to_dict scored)"
      by (rule mset_out [OF so])
    show "dict_get (map to_dict scored ! i) k = dict_get (tasks ! i) k"
      if "i < length tasks" "k \<notin> added_keys" for i k
      by (rule recs_fields [OF b sc that])
  qed
qed

theorem analyze_sorted_stable_witness:
  "analyze_tasks env0 batch_ties ''high_impact'' None
     = (fst (analyze_tasks env0 batch_ties ''high_impact'' None),
        Inr (projr (snd (analyze_tasks env0 batch_ties ''high_impact'' None))))
   \<and> list_all (\<lambda>r. nan_free (record_key r))
        (projr (snd (analyze_tasks env0 batch_ties ''high_impact'' None)))
   \<and> map (\<lambda>r. task_get r ''id'') (projr (snd (analyze_tasks env0 batch_ties ''high_impact'' None)))
       = [VStr ''b'', VStr ''c'', VStr ''a'']
   \<and> sorted_wrt (\<lambda>a b. fl_le (fst (record_key b)) (fst (record_key a)))
        (projr (snd (analyze_tasks env0 batch_ties ''high_impact'' None)))"
proof -
  have h: "analyze_tasks env0 batch_ties ''high_impact'' None
     = (fst (analyze_tasks env0 batch_ties ''high_impact'' None),
        Inr (projr (snd (analyze_tasks env0 batch_ties ''high_impact'' None))))"
    by code_simp
  have nf: "list_all (\<lambda>r. nan_free (record_key r))
        (projr (snd (analyze_tasks env0 batch_ties ''high_impact'' None)))"
    by code_simp
  have ids: "map (\<lambda>r. task_get r ''id'') (projr (snd (analyze_tasks env0 batch_ties ''high_impact'' None)))
       = [VStr ''b'', VStr ''c'', VStr ''a'']"
    by code_simp
  show ?thesis
    using analyze_sorted_stable [OF h] h nf ids by (intro conjI) blast+
qed

text \<open>
  The claim as stated fails for a batch with a NaN importance. The three tasks of
  \<open>batch_nan\<close> all get the score 5.0 under \<open>high_impact\<close>, NaN degrading to the default,
  and every comparison with the key \<open>(5.0, nan)\<close> is false, so the sort finds the
  list in order and returns it as it is: the record with importance 5.2 stays before
  the one with importance 5.7, whose key is above.
\<close>

theorem analyze_nan_unsorted_counterexample:
  "map record_key (projr (snd (analyze_tasks env0 batch_nan ''high_impact'' None)))
     = [(Flt 5, VFloat (Flt (26 / 5))), (Flt 5, VFloat NaN), (Flt 5, VFloat (Flt (57 / 10)))]
   \<and> \<not> isl (snd (analyze_tasks env0 batch_nan ''high_impact'' None))
   \<and> key_lt (Flt 5, VFloat (Flt (26 / 5))) (Flt 5, VFloat (Flt (57 / 10))) = Inr True
   \<and> \<not> sorted_wrt (\<lambda>a b. key_lt (record_key b) (record_key a) = Inr True
                           \<or> key_eq (record_key a) (record_key b))
         (projr (snd (analyze_tasks env0 batch_nan ''high_impact'' None)))"
  by code_simp

section \<open>Decimal text of positions\<close>

lemma digit_char_inj: "m < 10 \<Longrightarrow> n < 10 \<Longrightarrow> digit_char m = digit_char n \<Longrightarrow> m = n"
proof -
  assume m: "m < 10" and n: "n < 10" and e: "digit_char m = digit_char n"
  have d: "distinct ''0123456789''" by simp
  have "''0123456789'' ! m = ''0123456789'' ! n" using e m n by (simp add: digit_char_def)
  then show "m = n" using nth_eq_iff_index_eq [OF d, of m n] m n by simp
qed

lemma str_nat_nonempty: "str_nat n \<noteq> []"
  by (subst str_nat.simps) simp

lemma str_nat_small: "n < 10 \<Longrightarrow> str_nat n = [digit_char n]"
  by (subst str_nat.simps) simp

lemma str_nat_large: "\<not> n < 10 \<Longrightarrow> str_nat n = str_nat (n div 10) @ [digit_char (n mod 10)]"
  by (subst str_nat.simps) simp

lemma str_nat_length: "(length (str_nat n) = 1) = (n < 10)"
proof (cases "n < 10")
  case True
  then show ?thesis by (simp add: str_nat_small)
next
  case False
  have "length (str_nat (n div 10)) \<noteq> 0" using str_nat_nonempty by simp
  then show ?thesis using False by (simp add: str_nat_large)
qed

lemma str_nat_inj: "str_nat m = str_nat n \<Longrightarrow> m = n"
proof (induction m arbitrary: n rule: str_nat.induct)
  case (1 m)
  have same: "(m < 10) = (n < 10)"
    using str_nat_length [of m] str_nat_length [of n] "1.prems" by metis
  show ?case
  proof (cases "m < 10")
    case True
    then have n10: "n < 10" using same by simp
    have "[digit_char m] = [digit_char n]"
      using "1.prems" str_nat_small [OF True] str_nat_small [OF n10] by metis
    then show ?thesis using digit_char_inj [OF True n10] by blast
  next
    case False
    then have n10: "\<not> n < 10" using same by simp
    have "str_nat (m div 10) @ [digit_char (m mod 10)] = str_nat (n div 10) @ [digit_char (n mod 10)]"
      using "1.prems" str_nat_large [OF False] str_nat_large [OF n10] by metis
    then have e: "str_nat (m div 10) = str_nat (n div 10)"
      and dd: "digit_char (m mod 10) = digit_char (n mod 10)"
      by blast+
    have "m div 10 = n div 10" using "1.IH" [OF False e] .
    moreover have "m mod 10 = n mod 10" using digit_char_inj [OF _ _ dd] by simp
    ultimately show ?thesis by (metis div_mult_mod_eq)
  qed
qed

lemma str_int_nat_inj: "str_int (int i) = str_int (int j) \<Longrightarrow> i = j"
  using str_nat_inj by (simp add: str_int_def)

section \<open>Effect on the caller's batch\<close>

text \<open>
  Claim C10. When \<open>analyze_tasks\<close> returns, every task dictionary of the caller's list
  has been given the entry \<open>_internal_id\<close>, holding the id assigned to it, and is
  otherwise unchanged; the entry is still there after the call. The returned records
  are as many as the tasks and none of them has the entry.
\<close>

theorem analyze_mutates_input:
  assumes "analyze_tasks e tasks strategy weights = (tasks', Inr out)"
  shows "length tasks' = length tasks
       \<and> (\<forall>i<length tasks.
            tasks' ! i = dict_set (tasks ! i) ''_internal_id'' (internal_id_of i (tasks ! i))
            \<and> dict_get (tasks' ! i) ''_internal_id'' = Some (internal_id_of i (tasks ! i))
            \<and> (\<forall>k. k \<noteq> ''_internal_id'' \<longrightarrow> dict_get (tasks' ! i) k = dict_get (tasks ! i) k))
       \<and> length out = length tasks
       \<and> (\<forall>r\<in>set out. dict_get r ''_internal_id'' = None)"
proof (cases "tasks = []")
  case True
  then show ?thesis using assms by (simp add: analyze_tasks_def)
next
  case False
  obtain graph dependents cycle_nodes scored sorted_tasks where
    b: "build_dependency_graph e tasks = (tasks', Inr (graph, dependents))"
    and sc: "score_all e strategy dependents weights cycle_nodes tasks' = Inr scored"
    and so: "sort_desc scored = Inr sorted_tasks"
    and out: "out = map to_dict sorted_tasks"
    by (rule analyze_Inr [OF assms False])
  have l1: "length tasks' = length tasks" using build_length [of e tasks] b by simp
  have l2: "length out = length tasks"
    using mset_out [OF so] recs_length [OF b sc] out by (metis length_map size_mset)
  have n: "\<forall>r\<in>set out. dict_get r ''_internal_id'' = None"
    by (auto simp: out to_dict_get)
  have t: "\<forall>i<length tasks.
            tasks' ! i = dict_set (tasks ! i) ''_internal_id'' (internal_id_of i (tasks ! i))
            \<and> dict_get (tasks' ! i) ''_internal_id'' = Some (internal_id_of i (tasks ! i))
            \<and> (\<forall>k. k \<noteq> ''_internal_id'' \<longrightarrow> dict_get (tasks' ! i) k = dict_get (tasks ! i) k)"
    using build_nth [OF b] by (simp add: dict_get_dict_set)
  show ?thesis using l1 l2 n t by (intro conjI)
qed

theorem analyze_mutates_input_witness:
  "analyze_tasks env0 batch_ties ''high_impact'' None
     = (fst (analyze_tasks env0 batch_ties ''high_impact'' None),
        Inr (projr (snd (analyze_tasks env0 batch_ties ''high_impact'' None))))
   \<and> fst (analyze_tasks env0 batch_ties ''high_impact'' None)
       = [[(''id'', VStr ''a''), (''importance'', VInt 3), (''_internal_id'', VStr ''a'')],
          [(''id'', VStr ''b''), (''importance'', VInt 9), (''_internal_id'', VStr ''b'')],
          [(''id'', VStr ''c''), (''importance'', VInt 9), (''_internal_id'', VStr ''c'')]]
   \<and> list_all (\<lambda>r. dict_get r ''_internal_id'' = None)
        (projr (snd (analyze_tasks env0 batch_ties ''high_impact'' None)))"
proof -
  have h: "analyze_tasks env0 batch_ties ''high_impact'' None
     = (fst (analyze_tasks env0 batch_ties ''high_impact'' None),
        Inr (projr (snd (analyze_tasks env0 batch_ties ''high_impact'' None))))"
    by code_simp
  have v: "fst (analyze_tasks env0 batch_ties ''high_impact'' None)
       = [[(''id'', VStr ''a''), (''importance'', VInt 3), (''_internal_id'', VStr ''a'')],
          [(''id'', VStr ''b''), (''importance'', VInt 9), (''_internal_id'', VStr ''b'')],
          [(''id'', VStr ''c''), (''importance'', VInt 9), (''_internal_id'', VStr ''c'')]]"
    by code_simp
  note c = analyze_mutates_input [OF h, THEN conjunct2, THEN conjunct2, THEN conjunct2]
  have n: "list_all (\<lambda>r. dict_get r ''_internal_id'' = None)
        (projr (snd (analyze_tasks env0 batch_ties ''high_impact'' None)))"
    using c by (simp only: list_all_iff)
  show ?thesis by (intro conjI) (rule h v n)+
qed

section \<open>Internal ids\<close>

lemma py_eq_VStr: "py_eq v (VStr s) = (v = VStr s)"
  by (auto simp: py_eq_def)

lemma internal_id_distinct:
  assumes h1: "\<forall>i<length tasks. \<forall>j<length tasks. i \<noteq> j \<longrightarrow>
                 truthy (task_get (tasks ! i) ''id'') \<longrightarrow> truthy (task_get (tasks ! j) ''id'')
                 \<longrightarrow> \<not> py_eq (task_get (tasks ! i) ''id'') (task_get (tasks ! j) ''id'')"
    and h2: "\<forall>i<length tasks. \<forall>j<length tasks.
                 truthy (task_get (tasks ! i) ''id'') \<longrightarrow> \<not> truthy (task_get (tasks ! j) ''id'')
                 \<longrightarrow> task_get (tasks ! i) ''id'' \<noteq> VStr (str_int (int j))"
    and i: "i < length tasks" and j: "j < length tasks" and ij: "i \<noteq> j"
  shows "\<not> py_eq (internal_id_of i (tasks ! i)) (internal_id_of j (tasks ! j))"
proof (cases "truthy (task_get (tasks ! i) ''id'')"; cases "truthy (task_get (tasks ! j) ''id'')")
  assume a: "truthy (task_get (tasks ! i) ''id'')" "truthy (task_get (tasks ! j) ''id'')"
  then show ?thesis using h1 i j ij by (simp add: internal_id_of_def)
next
  assume a: "truthy (task_get (tasks ! i) ''id'')" "\<not> truthy (task_get (tasks ! j) ''id'')"
  then show ?thesis using h2 i j by (simp add: internal_id_of_def py_eq_VStr)
next
  assume a: "\<not> truthy (task_get (tasks ! i) ''id'')" "truthy (task_get (tasks ! j) ''id'')"
  have "\<not> py_eq (task_get (tasks ! j) ''id'') (VStr (str_int (int i)))"
    using h2 i j a by (simp add: py_eq_VStr)
  then show ?thesis using a by (simp add: internal_id_of_def py_eq_def)
next
  assume a: "\<not> truthy (task_get (tasks ! i) ''id'')" "\<not> truthy (task_get (tasks ! j) ''id'')"
  then show ?thesis using ij str_int_nat_inj by (auto simp: internal_id_of_def py_eq_def)
qed

lemma truthy_VStr_get:
  "dict_get t ''id'' = Some (VStr s) \<Longrightarrow> s \<noteq> [] \<Longrightarrow> internal_id_of i t = VStr s"
  "dict_get t ''id'' = None \<Longrightarrow> internal_id_of i t = VStr (str_int (int i))"
  by (simp_all add: internal_id_of_def task_get_def)

text \<open>
  Claim C5, amended. When the graph builder returns, every task has exactly one
  internal id: its own \<open>id\<close> entry when that is present and true (for a string:
  non-empty), else the decimal string of its zero-based position. The internal ids
  are pairwise different whenever the supplied ids are pairwise different and none
  of them equals the position string given to a task without an id.
\<close>

theorem internal_ids:
  assumes "build_dependency_graph e tasks = (tasks', Inr (graph, dependents))"
  shows "length tasks' = length tasks
    \<and> (\<forall>i<length tasks. dict_get (tasks' ! i) ''_internal_id'' =
          Some (if truthy (task_get (tasks ! i) ''id'') then task_get (tasks ! i) ''id''
                else VStr (str_int (int i))))
    \<and> (\<forall>i<length tasks. \<forall>s. s \<noteq> [] \<longrightarrow> dict_get (tasks ! i) ''id'' = Some (VStr s)
          \<longrightarrow> dict_get (tasks' ! i) ''_internal_id'' = Some (VStr s))
    \<and> (\<forall>i<length tasks. dict_get (tasks ! i) ''id'' = None
          \<longrightarrow> dict_get (tasks' ! i) ''_internal_id'' = Some (VStr (str_int (int i))))
    \<and> ((\<forall>i<length tasks. \<forall>j<length tasks. i \<noteq> j \<longrightarrow>
                 truthy (task_get (tasks ! i) ''id'') \<longrightarrow> truthy (task_get (tasks ! j) ''id'')
                 \<longrightarrow> \<not> py_eq (task_get (tasks ! i) ''id'') (task_get (tasks ! j) ''id''))
        \<longrightarrow> (\<forall>i<length tasks. \<forall>j<length tasks.
                 truthy (task_get (tasks ! i) ''id'') \<longrightarrow> \<not> truthy (task_get (tasks ! j) ''id'')
                 \<longrightarrow> task_get (tasks ! i) ''id'' \<noteq> VStr (str_int (int j)))
        \<longrightarrow> (\<forall>i<length tasks. \<forall>j<length tasks. i \<noteq> j \<longrightarrow>
                 \<not> py_eq (task_get (tasks' ! i) ''_internal_id'') (task_get (tasks' ! j) ''_internal_id'')))"
proof -
  have l: "length tasks' = length tasks" using build_length [of e tasks] assms by simp
  have g: "\<And>i. i < length tasks \<Longrightarrow>
             dict_get (tasks' ! i) ''_internal_id'' = Some (internal_id_of i (tasks ! i))"
    using build_nth [OF assms] by (simp add: dict_get_dict_set)
  have tg: "\<And>i. i < length tasks \<Longrightarrow>
             task_get (tasks' ! i) ''_internal_id'' = internal_id_of i (tasks ! i)"
    using g by (simp add: task_get_def)
  show ?thesis
  proof (intro conjI allI impI)
    show "length tasks' = length tasks" by (rule l)
    show "dict_get (tasks' ! i) ''_internal_id'' =
          Some (if truthy (task_get (tasks ! i) ''id'') then task_get (tasks ! i) ''id''
                else VStr (str_int (int i)))" if "i < length tasks" for i
      using g [OF that] by (simp add: internal_id_of_def)
    show "dict_get (tasks' ! i) ''_internal_id'' = Some (VStr s)"
      if "i < length tasks" "s \<noteq> []" "dict_get (tasks ! i) ''id'' = Some (VStr s)" for i s
      using g [OF that(1)] truthy_VStr_get(1) [OF that(3) that(2)] by simp
    show "dict_get (tasks' ! i) ''_internal_id'' = Some (VStr (str_int (int i)))"
      if "i < length tasks" "dict_get (tasks ! i) ''id'' = None" for i
      using g [OF that(1)] truthy_VStr_get(2) [OF that(2)] by simp
    show "\<not> py_eq (task_get (tasks' ! i) ''_internal_id'') (task_get (tasks' ! j) ''_internal_id'')"
      if h1: "\<forall>i<length tasks. \<forall>j<length tasks. i \<noteq> j \<longrightarrow>
                 truthy (task_get (tasks ! i) ''id'') \<longrightarrow> truthy (task_get (tasks ! j) ''id'')
                 \<longrightarrow> \<not> py_eq (task_get (tasks ! i) ''id'') (task_get (tasks ! j) ''id'')"
      and h2: "\<forall>i<length tasks. \<forall>j<length tasks.
                 truthy (task_get (tasks ! i) ''id'') \<longrightarrow> \<not> truthy (task_get (tasks ! j) ''id'')
                 \<longrightarrow> task_get (tasks ! i) ''id'' \<noteq> VStr (str_int (int j))"
      and i: "i < length tasks" and j: "j < length tasks" and ij: "i \<noteq> j" for i j
      unfolding tg [OF i] tg [OF j] by (rule internal_id_distinct [OF h1 h2 i j ij])
  qed
qed


theorem internal_ids_witness:
  "build_dependency_graph env0 batch_mixed
     = ([[(''id'', VStr ''a''), (''_internal_id'', VStr ''a'')],
         [(''title'', VStr ''no id''), (''_internal_id'', VStr ''1'')]],
        Inr ([(VStr ''a'', []), (VStr ''1'', [])], [(VStr ''a'', 0), (VStr ''1'', 0)]))
   \<and> \<not> py_eq (VStr ''a'') (VStr ''1'')"
proof -
  let ?ts = "[[(''id'', VStr ''a''), (''_internal_id'', VStr ''a'')],
              [(''title'', VStr ''no id''), (''_internal_id'', VStr ''1'')]]"
  have h: "build_dependency_graph env0 batch_mixed
     = (?ts, Inr ([(VStr ''a'', []), (VStr ''1'', [])], [(VStr ''a'', 0), (VStr ''1'', 0)]))"
    by code_simp
  have s1: "str_int 1 = ''1''" by code_simp
  have l: "length batch_mixed = 2" by (simp add: batch_mixed_def)
  have h1: "\<forall>i<length batch_mixed. \<forall>j<length batch_mixed. i \<noteq> j \<longrightarrow>
                 truthy (task_get (batch_mixed ! i) ''id'') \<longrightarrow> truthy (task_get (batch_mixed ! j) ''id'')
                 \<longrightarrow> \<not> py_eq (task_get (batch_mixed ! i) ''id'') (task_get (batch_mixed ! j) ''id'')"
    by (auto simp: batch_mixed_def task_get_def less_Suc_eq numeral_2_eq_2)
  have h2: "\<forall>i<length batch_mixed. \<forall>j<length batch_mixed.
                 truthy (task_get (batch_mixed ! i) ''id'') \<longrightarrow> \<not> truthy (task_get (batch_mixed ! j) ''id'')
                 \<longrightarrow> task_get (batch_mixed ! i) ''id'' \<noteq> VStr (str_int (int j))"
    by (auto simp: batch_mixed_def task_get_def less_Suc_eq numeral_2_eq_2 s1)
  note u0 = internal_ids [OF h, THEN conjunct2, THEN conjunct2, THEN conjunct2, THEN conjunct2]
  note u1 = u0 [THEN mp, OF h1, THEN mp, OF h2]
  note u = u1 [rule_format, of 0 1]
  have "\<not> py_eq (task_get (?ts ! 0) ''_internal_id'') (task_get (?ts ! 1) ''_internal_id'')"
    using u l by simp
  then show ?thesis using h by (simp add: task_get_def)
qed

text \<open>
  The claim as stated fails: ids are taken over as supplied, so two tasks that both
  carry the id \<open>a\<close> get the same internal id.
\<close>

theorem internal_ids_duplicate_counterexample:
  "\<not> isl (snd (build_dependency_graph env0 [[(''id'', VStr ''a'')], [(''id'', VStr ''a'')]]))
   \<and> task_get (fst (build_dependency_graph env0 [[(''id'', VStr ''a'')], [(''id'', VStr ''a'')]]) ! 0)
         ''_internal_id''
     = task_get (fst (build_dependency_graph env0 [[(''id'', VStr ''a'')], [(''id'', VStr ''a'')]]) ! 1)
         ''_internal_id''"
  by code_simp

section \<open>Dependents count\<close>

lemma count_deps_count:
  "count_of (count_deps ds c) k = count_of c k + int (count_list ds k)"
  by (induction ds arbitrary: c) (auto simp: dict_get_dict_set split: option.splits)

lemma assign_ids_zero:
  "snd (assign_ids idx ts g c) = Inr (g', c') \<Longrightarrow> (\<forall>k. count_of c k = 0)
     \<Longrightarrow> count_of c' k = 0"
proof (induction ts arbitrary: idx g c)
  case Nil
  then show ?case by simp
next
  case (Cons t ts)
  let ?k = "eq_repr (internal_id_of idx t)"
  from Cons.prems(1) have h: "hashable (internal_id_of idx t)"
    and s: "snd (assign_ids (Suc idx) ts (dict_set g ?k []) (dict_set c ?k 0)) = Inr (g', c')"
    by (auto simp: assign_ids_Cons split: if_splits)
  have "\<forall>k. count_of (dict_set c ?k 0) k = 0"
    using Cons.prems(2) by (simp add: dict_get_dict_set)
  then show ?case using Cons.IH [OF s] by blast
qed

lemma norm_deps_of_dict_set [simp]:
  "norm_deps_of e (dict_set t ''_internal_id'' v) = norm_deps_of e t"
  by (simp add: norm_deps_of_def task_get_dict_set)

lemma fill_deps_count:
  "fill_deps e ts g c = Inr (g', c') \<Longrightarrow>
     \<exists>dss. map (norm_deps_of e) ts = map Inr dss
       \<and> (\<forall>k. count_of c' k = count_of c k + int (count_list (concat dss) k))"
proof (induction ts arbitrary: g c)
  case Nil
  then show ?case by simp
next
  case (Cons t ts)
  from Cons.prems obtain tid ds where
    nd: "norm_deps_of e t = Inr ds"
    and r: "fill_deps e ts (dict_set g (eq_repr tid) ds) (count_deps ds c) = Inr (g', c')"
    by (auto split: option.splits sum.splits if_splits)
  from Cons.IH [OF r] obtain dss where
    m: "map (norm_deps_of e) ts = map Inr dss"
    and k: "\<forall>k. count_of c' k = count_of (count_deps ds c) k + int (count_list (concat dss) k)"
    by blast
  have "map (norm_deps_of e) (t # ts) = map Inr (ds # dss)" using nd m by simp
  moreover have "\<forall>k. count_of c' k = count_of c k + int (count_list (concat (ds # dss)) k)"
    using k by (simp add: count_deps_count)
  ultimately show ?case by blast
qed

lemma build_norm_deps:
  assumes "build_dependency_graph e tasks = (tasks', Inr gc)"
  shows "map (norm_deps_of e) tasks' = map (norm_deps_of e) tasks"
  unfolding build_fst [OF assms]
  by (rule nth_equalityI) (simp_all add: nth_enumerate_eq)

lemma build_parts:
  assumes "build_dependency_graph e tasks = (tasks', Inr (graph, dependents))"
  obtains g0 c0 where "assign_ids 0 tasks [] [] = (tasks', Inr (g0, c0))"
    "fill_deps e tasks' g0 c0 = Inr (graph, dependents)"
  using assms by (auto simp: build_dependency_graph_def split: prod.splits sum.splits)

lemma count_list_pos: "x \<in> set xs \<Longrightarrow> 0 < count_list xs x"
  by (induction xs) auto

text \<open>
  Claim C7. When the graph builder returns, the dependents count of every key is the
  number of times the key is declared as a dependency, in stringified form, over all
  tasks of the batch, whether or not the key is the id of a task; so every declared
  dependency has a count of at least 1.
\<close>

theorem dependents_count_total:
  assumes "build_dependency_graph e tasks = (tasks', Inr (graph, dependents))"
  shows "\<exists>dss. map (norm_deps_of e) tasks = map Inr dss
           \<and> (\<forall>k. (case dict_get dependents k of None \<Rightarrow> 0 | Some n \<Rightarrow> n)
                    = int (count_list (concat dss) k))
           \<and> (\<forall>i<length tasks. \<forall>d\<in>set (dss ! i).
                 \<exists>n. dict_get dependents d = Some n \<and> 1 \<le> n)"
proof -
  obtain g0 c0 where a: "assign_ids 0 tasks [] [] = (tasks', Inr (g0, c0))"
    and f: "fill_deps e tasks' g0 c0 = Inr (graph, dependents)"
    by (rule build_parts [OF assms])
  have z: "\<forall>k. count_of c0 k = 0"
    using assign_ids_zero [of 0 tasks "[]" "[]" g0 c0] a by simp
  obtain dss where m: "map (norm_deps_of e) tasks' = map Inr dss"
    and k: "\<forall>k. count_of dependents k = count_of c0 k + int (count_list (concat dss) k)"
    using fill_deps_count [OF f] by blast
  have m': "map (norm_deps_of e) tasks = map Inr dss"
    using m build_norm_deps [OF assms] by simp
  have k': "\<forall>k. count_of dependents k = int (count_list (concat dss) k)"
    using k z by simp
  have len: "length dss = length tasks" using m' by (metis length_map)
  have p: "\<forall>i<length tasks. \<forall>d\<in>set (dss ! i). \<exists>n. dict_get dependents d = Some n \<and> 1 \<le> n"
  proof (intro allI impI ballI)
    fix i d assume i: "i < length tasks" and d: "d \<in> set (dss ! i)"
    then have "d \<in> set (concat dss)" using len by (auto intro: nth_mem)
    then have "0 < count_list (concat dss) d" by (rule count_list_pos)
    then have "1 \<le> count_of dependents d" using k' by simp
    then show "\<exists>n. dict_get dependents d = Some n \<and> 1 \<le> n"
      by (cases "dict_get dependents d") auto
  qed
  show ?thesis using m' k' p by blast
qed

theorem dependents_count_total_witness:
  "build_dependency_graph env0 batch_deps
     = ([[(''id'', VStr ''a''), (''dependencies'', VList [VStr ''b'', VStr ''z'']),
          (''_internal_id'', VStr ''a'')],
         [(''id'', VStr ''b''), (''_internal_id'', VStr ''b'')]],
        Inr ([(VStr ''a'', [VStr ''b'', VStr ''z'']), (VStr ''b'', [])],
             [(VStr ''a'', 0), (VStr ''b'', 1), (VStr ''z'', 1)]))
   \<and> (\<exists>dss. map (norm_deps_of env0) batch_deps = map Inr dss
         \<and> (\<forall>k. (case dict_get [(VStr ''a'', 0), (VStr ''b'', 1), (VStr ''z'', 1)] k of
                    None \<Rightarrow> 0 | Some n \<Rightarrow> n) = int (count_list (concat dss) k)))"
proof -
  have h: "build_dependency_graph env0 batch_deps
     = ([[(''id'', VStr ''a''), (''dependencies'', VList [VStr ''b'', VStr ''z'']),
          (''_internal_id'', VStr ''a'')],
         [(''id'', VStr ''b''), (''_internal_id'', VStr ''b'')]],
        Inr ([(VStr ''a'', [VStr ''b'', VStr ''z'']), (VStr ''b'', [])],
             [(VStr ''a'', 0), (VStr ''b'', 1), (VStr ''z'', 1)]))"
    by code_simp
  show ?thesis using dependents_count_total [OF h] h by blast
qed

section \<open>Unrecognised strategy names\<close>

lemma dict_set_keys: "fst ` set (dict_set d k v) = insert k (fst ` set d)"
proof -
  have "(k' \<in> fst ` set (dict_set d k v)) = (k' \<in> insert k (fst ` set d))" for k'
    using dict_get_None_iff [of "dict_set d k v" k'] dict_get_None_iff [of d k']
    by (auto simp: dict_get_dict_set split: if_splits)
  then show ?thesis by blast
qed

lemma dict_set_swap:
  "k \<in> fst ` set d \<Longrightarrow> k \<noteq> k' \<Longrightarrow>
     dict_set (dict_set d k' v') k v = dict_set (dict_set d k v) k' v'"
proof (induction d)
  case Nil
  then show ?case by simp
next
  case (Cons a d)
  show ?case
  proof (cases "fst a = k")
    case True
    then show ?thesis using Cons.prems by (cases a) auto
  next
    case False
    then have "k \<in> fst ` set d" using Cons.prems(1) by auto
    then show ?thesis using Cons.IH Cons.prems(2) False by (cases a) auto
  qed
qed

lemma to_dict_strategy:
  "to_dict (st\<lparr>st_strategy := s\<rparr>) = dict_set (to_dict st) ''strategy_used'' (VStr s)"
proof -
  let ?X = "dict_set (dict_pop (st_task st) ''_internal_id'') ''score'' (VFloat (st_score st))"
  let ?A = "dict_set ?X ''strategy_used'' (VStr (st_strategy st))"
  let ?B = "dict_set ?A ''explanation'' (VStr (st_explanation st))"
  have kA: "''strategy_used'' \<in> fst ` set ?A" by (simp add: dict_set_keys)
  have kB: "''strategy_used'' \<in> fst ` set ?B" by (simp add: dict_set_keys)
  have "dict_set (dict_set ?B ''has_cycle'' (VBool (st_has_cycle st))) ''strategy_used'' (VStr s)
        = dict_set (dict_set ?B ''strategy_used'' (VStr s)) ''has_cycle'' (VBool (st_has_cycle st))"
    by (rule dict_set_swap [OF kB]) simp
  also have "dict_set ?B ''strategy_used'' (VStr s)
        = dict_set (dict_set ?A ''strategy_used'' (VStr s)) ''explanation'' (VStr (st_explanation st))"
    by (rule dict_set_swap [OF kA]) simp
  also have "dict_set ?A ''strategy_used'' (VStr s) = dict_set ?X ''strategy_used'' (VStr s)"
    by (rule dict_set_twice)
  finally show ?thesis by (simp add: to_dict_def)
qed

lemma other_smart [simp]: "other_strategy ''smart_balance''"
  by (simp add: other_strategy_def)

lemma score_task_other:
  assumes "other_strategy s"
  shows "score_task e t s dc w cs
           = map_sum id (\<lambda>st. st\<lparr>st_strategy := s\<rparr>) (score_task e t ''smart_balance'' dc w cs)"
  using assms
  by (simp add: score_task_def other_strategy_def Let_def split: sum.splits prod.splits)

lemma score_all_other:
  assumes "other_strategy s"
  shows "score_all e s dc w cyc ts
           = map_sum id (map (\<lambda>st. st\<lparr>st_strategy := s\<rparr>)) (score_all e ''smart_balance'' dc w cyc ts)"
proof (induction ts)
  case Nil
  then show ?case by simp
next
  case (Cons t ts)
  show ?case
    by (simp add: Cons score_task_other [OF assms, of e t dc w "Some cyc"] split: sum.splits)
qed

lemma sort_key_strategy [simp]: "sort_key (st\<lparr>st_strategy := s\<rparr>) = sort_key st"
  by (simp add: sort_key_def)

lemma insort_desc_map:
  assumes "\<And>x. sort_key (f x) = sort_key x"
  shows "insort_desc (f x) (map f ys) = map f (insort_desc x ys)"
  by (induction ys) (simp_all add: assms)

lemma foldr_insort_map:
  assumes "\<And>x. sort_key (f x) = sort_key x"
  shows "foldr insort_desc (map f xs) [] = map f (foldr insort_desc xs [])"
proof (induction xs)
  case Nil
  then show ?case by simp
next
  case (Cons x xs)
  have "foldr insort_desc (map f (x # xs)) [] = insort_desc (f x) (map f (foldr insort_desc xs []))"
    using Cons by simp
  then show ?case using insort_desc_map [of f, OF assms] by simp
qed

lemma sort_desc_map:
  assumes "\<And>x. sort_key (f x) = sort_key x"
  shows "sort_desc (map f xs) = map_sum id (map f) (sort_desc xs)"
  by (simp add: sort_desc_def list_all_iff assms foldr_insort_map [of f, OF assms])

lemma analyze_other:
  assumes "other_strategy s"
  shows "analyze_tasks e tasks s w =
     (case analyze_tasks e tasks ''smart_balance'' w of
        (ts, r) \<Rightarrow> (ts, map_sum id (map (\<lambda>d. dict_set d ''strategy_used'' (VStr s))) r))"
proof -
  have m: "map to_dict (map (\<lambda>st. st\<lparr>st_strategy := s\<rparr>) xs)
             = map (\<lambda>d. dict_set d ''strategy_used'' (VStr s)) (map to_dict xs)" for xs
    by (simp add: to_dict_strategy)
  show ?thesis
    unfolding analyze_tasks_def score_all_other [OF assms]
    by (auto simp: sort_desc_map m simp del: map_map split: prod.splits sum.splits)
qed

lemma score_task_smart:
  assumes "other_strategy s"
  shows "score_task e t s dc w cs = Inr st \<Longrightarrow>
     \<exists>imp u ur ef er.
        normalize_importance e (task_get t ''importance'') = Inr imp
      \<and> compute_urgency_score e (task_get t ''due_date'') = Inr (u, ur)
      \<and> compute_effort_score e (task_get t ''estimated_hours'') = Inr (ef, er)
      \<and> st_score st = py_round2 (score_smart_balance (of_int imp) u ef
                          (count_of dc (eq_repr (task_get t ''_internal_id''))) w)"
  using assms
  by (auto simp: score_task_def other_strategy_def Let_def split: sum.splits prod.splits if_splits)

lemma score_task_returns:
  "normalize_importance e (task_get t ''importance'') = Inr imp \<Longrightarrow>
   compute_urgency_score e (task_get t ''due_date'') = Inr (u, ur) \<Longrightarrow>
   compute_effort_score e (task_get t ''estimated_hours'') = Inr (ef, er) \<Longrightarrow>
   hashable (task_get t ''_internal_id'') \<Longrightarrow>
   \<exists>st. score_task e t s dc w cs = Inr st"
  by (simp add: score_task_def Let_def split: prod.splits)

text \<open>
  Claim C8. For a strategy name other than \<open>fastest_wins\<close>, \<open>high_impact\<close> and
  \<open>deadline_driven\<close>, \<open>analyze_tasks\<close> does what it does for \<open>smart_balance\<close>, raising
  or returning alike, except that the returned records report the given name; every
  task that is scored gets the rounded balanced score, under the default weights when
  none are supplied, and no error comes from the name.
\<close>

theorem unknown_strategy_smart_balance:
  assumes "strategy \<noteq> ''fastest_wins''" "strategy \<noteq> ''high_impact''"
    "strategy \<noteq> ''deadline_driven''"
  shows "analyze_tasks e tasks strategy weights =
           (case analyze_tasks e tasks ''smart_balance'' weights of
              (ts, r) \<Rightarrow> (ts, map_sum id (map (\<lambda>d. dict_set d ''strategy_used'' (VStr strategy))) r))
     \<and> (\<forall>st. score_task e task strategy dc weights cs = Inr st \<longrightarrow>
           (\<exists>imp u ur ef er.
               normalize_importance e (task_get task ''importance'') = Inr imp
             \<and> compute_urgency_score e (task_get task ''due_date'') = Inr (u, ur)
             \<and> compute_effort_score e (task_get task ''estimated_hours'') = Inr (ef, er)
             \<and> st_score st = py_round2 (score_smart_balance (of_int imp) u ef
                                 (case dict_get dc (eq_repr (task_get task ''_internal_id'')) of
                                    None \<Rightarrow> 0 | Some n \<Rightarrow> n) weights)))
     \<and> (\<forall>imp u ur ef er.
           normalize_importance e (task_get task ''importance'') = Inr imp
           \<longrightarrow> compute_urgency_score e (task_get task ''due_date'') = Inr (u, ur)
           \<longrightarrow> compute_effort_score e (task_get task ''estimated_hours'') = Inr (ef, er)
           \<longrightarrow> hashable (task_get task ''_internal_id'')
           \<longrightarrow> (\<exists>st. score_task e task strategy dc weights cs = Inr st))
     \<and> score_smart_balance i u' ef' b None =
         Flt (4 / 10 * i + 3 / 10 * u' + 2 / 10 * ef' + 1 / 10 * of_int b)"
proof -
  have o: "other_strategy strategy" using assms by (simp add: other_strategy_def)
  have 1: "analyze_tasks e tasks strategy weights =
           (case analyze_tasks e tasks ''smart_balance'' weights of
              (ts, r) \<Rightarrow> (ts, map_sum id (map (\<lambda>d. dict_set d ''strategy_used'' (VStr strategy))) r))"
    by (rule analyze_other [OF o])
  have 2: "\<forall>st. score_task e task strategy dc weights cs = Inr st \<longrightarrow>
           (\<exists>imp u ur ef er.
               normalize_importance e (task_get task ''importance'') = Inr imp
             \<and> compute_urgency_score e (task_get task ''due_date'') = Inr (u, ur)
             \<and> compute_effort_score e (task_get task ''estimated_hours'') = Inr (ef, er)
             \<and> st_score st = py_round2 (score_smart_balance (of_int imp) u ef
                                 (case dict_get dc (eq_repr (task_get task ''_internal_id'')) of
                                    None \<Rightarrow> 0 | Some n \<Rightarrow> n) weights))"
    using score_task_smart [OF o] by blast
  have 3: "\<forall>imp u ur ef er.
           normalize_importance e (task_get task ''importance'') = Inr imp
           \<longrightarrow> compute_urgency_score e (task_get task ''due_date'') = Inr (u, ur)
           \<longrightarrow> compute_effort_score e (task_get task ''estimated_hours'') = Inr (ef, er)
           \<longrightarrow> hashable (task_get task ''_internal_id'')
           \<longrightarrow> (\<exists>st. score_task e task strategy dc weights cs = Inr st)"
    using score_task_returns by blast
  have 4: "score_smart_balance i u' ef' b None =
         Flt (4 / 10 * i + 3 / 10 * u' + 2 / 10 * ef' + 1 / 10 * of_int b)"
    by (simp add: score_smart_balance_def weight_get_def SMART_WEIGHTS_def)
  show ?thesis using 1 2 3 4 by (intro conjI)
qed


theorem unknown_strategy_smart_balance_witness:
  "''urgent_first'' \<noteq> ''fastest_wins'' \<and> ''urgent_first'' \<noteq> ''high_impact''
   \<and> ''urgent_first'' \<noteq> ''deadline_driven''
   \<and> map (\<lambda>r. (task_get r ''id'', task_get r ''score'', task_get r ''strategy_used''))
        (projr (snd (analyze_tasks env0 batch_ties ''urgent_first'' (Some [(''importance'', Flt (1 / 2))]))))
      = [(VStr ''b'', VFloat (Flt (9 / 2)), VStr ''urgent_first''),
         (VStr ''c'', VFloat (Flt (9 / 2)), VStr ''urgent_first''),
         (VStr ''a'', VFloat (Flt (3 / 2)), VStr ''urgent_first'')]
   \<and> analyze_tasks env0 batch_ties ''urgent_first'' (Some [(''importance'', Flt (1 / 2))]) =
       (case analyze_tasks env0 batch_ties ''smart_balance'' (Some [(''importance'', Flt (1 / 2))]) of
          (ts, r) \<Rightarrow> (ts, map_sum id (map (\<lambda>d. dict_set d ''strategy_used'' (VStr ''urgent_first''))) r))"
proof -
  have a: "''urgent_first'' \<noteq> ''fastest_wins''" "''urgent_first'' \<noteq> ''high_impact''"
    "''urgent_first'' \<noteq> ''deadline_driven''" by simp_all
  have v: "map (\<lambda>r. (task_get r ''id'', task_get r ''score'', task_get r ''strategy_used''))
        (projr (snd (analyze_tasks env0 batch_ties ''urgent_first'' (Some [(''importance'', Flt (1 / 2))]))))
      = [(VStr ''b'', VFloat (Flt (9 / 2)), VStr ''urgent_first''),
         (VStr ''c'', VFloat (Flt (9 / 2)), VStr ''urgent_first''),
         (VStr ''a'', VFloat (Flt (3 / 2)), VStr ''urgent_first'')]"
    by code_simp
  note c = unknown_strategy_smart_balance [OF a, of env0 batch_ties "Some [(''importance'', Flt (1 / 2))]",
      THEN conjunct1]
  show ?thesis
    by (intro conjI) (rule a v c)+
qed

section \<open>The traversal marks mutual dependencies\<close>

lemma finished_ok_enter:
  "finished_ok g st \<Longrightarrow>
     finished_ok g (st\<lparr>visited := insert n (visited st), on_stack := insert n (on_stack st)\<rparr>)"
  by (auto simp: finished_ok_def)

lemma finished_ok_mark:
  "finished_ok g st \<Longrightarrow> finished_ok g (st\<lparr>in_cycle := insert a (insert b (in_cycle st))\<rparr>)"
  by (auto simp: finished_ok_def)

lemma dfs_correct:
  "on_stack st \<subseteq> visited st \<Longrightarrow> finished_ok graph st \<Longrightarrow>
     \<exists>st'. dfs graph node st = Inr st' \<and> dfs_post graph st st' \<and> node \<in> visited st'"
  "on_stack st \<subseteq> visited st \<Longrightarrow> finished_ok graph st \<Longrightarrow> node \<in> on_stack st \<Longrightarrow>
     set ns \<subseteq> set (nbrs graph node) \<Longrightarrow>
     \<exists>st'. dfs_neighbours graph node ns st = Inr st' \<and> dfs_post graph st st'
       \<and> set ns \<subseteq> visited st'
       \<and> (\<forall>m\<in>set ns. node \<in> set (nbrs graph m) \<longrightarrow> node \<in> in_cycle st' \<and> m \<in> in_cycle st')"
proof (induction graph node st and graph node ns st rule: dfs_dfs_neighbours.induct)
  case (1 graph node st)
  show ?case
  proof (cases "node \<in> visited st")
    case True
    then show ?thesis using 1(2,3) by (simp add: dfs.simps dfs_post_def)
  next
    case False
    let ?st1 = "st\<lparr>visited := insert node (visited st), on_stack := insert node (on_stack st)\<rparr>"
    have p1: "on_stack ?st1 \<subseteq> visited ?st1" using 1(2) by auto
    have p2: "finished_ok graph ?st1" using finished_ok_enter [OF 1(3)] .
    have p3: "node \<in> on_stack ?st1" by simp
    have p4: "set (case dict_get graph node of None \<Rightarrow> [] | Some ns \<Rightarrow> ns) \<subseteq> set (nbrs graph node)"
      by (simp add: nbrs_def)
    from "1.IH" [OF False p1 p2 p3 p4] obtain st2 where
      r: "dfs_neighbours graph node (case dict_get graph node of None \<Rightarrow> [] | Some ns \<Rightarrow> ns) ?st1 = Inr st2"
      and post: "dfs_post graph ?st1 st2"
      and mk: "\<forall>m\<in>set (nbrs graph node). node \<in> set (nbrs graph m)
                 \<longrightarrow> node \<in> in_cycle st2 \<and> m \<in> in_cycle st2"
      by (auto simp: nbrs_def)
    have s2: "on_stack st2 = insert node (on_stack st)" using post by (simp add: dfs_post_def)
    have nS: "node \<notin> on_stack st" using False 1(2) by auto
    let ?st' = "st2\<lparr>on_stack := on_stack st2 - {node}\<rparr>"
    have res: "dfs graph node st = Inr ?st'" using False r s2 by (simp add: dfs.simps)
    have f2: "finished_ok graph st2" using post by (simp add: dfs_post_def)
    have "finished_ok graph ?st'"
      unfolding finished_ok_def
    proof (intro ballI impI)
      fix x m
      assume x: "x \<in> visited ?st' - on_stack ?st'" and m: "m \<in> set (nbrs graph x)"
        and b: "x \<in> set (nbrs graph m)"
      show "x \<in> in_cycle ?st' \<and> m \<in> in_cycle ?st'"
      proof (cases "x = node")
        case True
        then show ?thesis using mk m b by simp
      next
        case False
        then have "x \<in> visited st2 - on_stack st2" using x by auto
        then show ?thesis using f2 m b by (auto simp: finished_ok_def)
      qed
    qed
    moreover have "on_stack ?st' = on_stack st" using s2 nS by auto
    moreover have "visited st \<subseteq> visited ?st'" "node \<in> visited ?st'"
      using post by (auto simp: dfs_post_def)
    moreover have "in_cycle st \<subseteq> in_cycle ?st'" using post by (auto simp: dfs_post_def)
    ultimately show ?thesis using res by (simp add: dfs_post_def)
  qed
next
  case (2 graph node st)
  then show ?case by (simp add: dfs_post_def)
next
  case (3 graph node neigh rest st)
  have rest: "set rest \<subseteq> set (nbrs graph node)" and nn: "neigh \<in> set (nbrs graph node)"
    using 3(8) by auto
  let ?Q = "\<lambda>st1. on_stack st1 \<subseteq> visited st1 \<longrightarrow> finished_ok graph st1 \<longrightarrow> node \<in> on_stack st1
             \<longrightarrow> set rest \<subseteq> set (nbrs graph node) \<longrightarrow>
             (\<exists>st'. dfs_neighbours graph node rest st1 = Inr st' \<and> dfs_post graph st1 st'
                \<and> set rest \<subseteq> visited st'
                \<and> (\<forall>m\<in>set rest. node \<in> set (nbrs graph m)
                      \<longrightarrow> node \<in> in_cycle st' \<and> m \<in> in_cycle st'))"
  have step: "\<exists>st1. dfs_post graph st st1 \<and> on_stack st1 \<subseteq> visited st1
                \<and> neigh \<in> visited st1
                \<and> (node \<in> set (nbrs graph neigh) \<longrightarrow> node \<in> in_cycle st1 \<and> neigh \<in> in_cycle st1)
                \<and> dfs_neighbours graph node (neigh # rest) st = dfs_neighbours graph node rest st1
                \<and> ?Q st1"
  proof (cases "neigh \<in> visited st")
    case False
    from "3.IH"(1) [OF False 3(5,6)] obtain st1 where
      d: "dfs graph neigh st = Inr st1" and post: "dfs_post graph st st1" and v: "neigh \<in> visited st1"
      by blast
    have "neigh \<notin> on_stack st1" using post False 3(5) by (auto simp: dfs_post_def)
    then have fin: "neigh \<in> visited st1 - on_stack st1" using v by simp
    have m: "node \<in> set (nbrs graph neigh) \<longrightarrow> node \<in> in_cycle st1 \<and> neigh \<in> in_cycle st1"
      using post fin nn by (auto simp: dfs_post_def finished_ok_def)
    have sv: "on_stack st1 \<subseteq> visited st1" using post 3(5) by (auto simp: dfs_post_def)
    have q: "?Q st1" using "3.IH"(2) [OF False d] by blast
    have e: "dfs_neighbours graph node (neigh # rest) st = dfs_neighbours graph node rest st1"
      using False d by simp
    show ?thesis using post sv v m e q by blast
  next
    case True
    show ?thesis
    proof (cases "neigh \<in> on_stack st")
      case on: True
      let ?st1 = "st\<lparr>in_cycle := insert neigh (insert node (in_cycle st))\<rparr>"
      have post: "dfs_post graph st ?st1"
        using finished_ok_mark [OF 3(6)] by (auto simp: dfs_post_def)
      have sv: "on_stack ?st1 \<subseteq> visited ?st1" using 3(5) by simp
      have v: "neigh \<in> visited ?st1" using True by simp
      have m: "node \<in> set (nbrs graph neigh) \<longrightarrow> node \<in> in_cycle ?st1 \<and> neigh \<in> in_cycle ?st1"
        by simp
      have e: "dfs_neighbours graph node (neigh # rest) st = dfs_neighbours graph node rest ?st1"
        using True on by simp
      have q: "?Q ?st1" using "3.IH"(3) True on by blast
      show ?thesis using post sv v m e q by blast
    next
      case off: False
      then have fin: "neigh \<in> visited st - on_stack st" using True by simp
      have m: "node \<in> set (nbrs graph neigh) \<longrightarrow> node \<in> in_cycle st \<and> neigh \<in> in_cycle st"
        using 3(6) fin nn by (auto simp: finished_ok_def)
      have post: "dfs_post graph st st" using 3(6) by (simp add: dfs_post_def)
      have e: "dfs_neighbours graph node (neigh # rest) st = dfs_neighbours graph node rest st"
        using True off by simp
      have q: "?Q st" using "3.IH"(4) True off by blast
      show ?thesis using post 3(5) True m e q by blast
    qed
  qed
  then obtain st1 where post1: "dfs_post graph st st1" and sv: "on_stack st1 \<subseteq> visited st1"
    and v1: "neigh \<in> visited st1"
    and mk1: "node \<in> set (nbrs graph neigh) \<longrightarrow> node \<in> in_cycle st1 \<and> neigh \<in> in_cycle st1"
    and eq: "dfs_neighbours graph node (neigh # rest) st = dfs_neighbours graph node rest st1"
    and q: "?Q st1"
    by blast
  have f1: "finished_ok graph st1" and on1: "node \<in> on_stack st1"
    using post1 3(7) by (auto simp: dfs_post_def)
  from q sv f1 on1 rest obtain st' where r: "dfs_neighbours graph node rest st1 = Inr st'"
    and post: "dfs_post graph st1 st'" and rv: "set rest \<subseteq> visited st'"
    and mk: "\<forall>m\<in>set rest. node \<in> set (nbrs graph m) \<longrightarrow> node \<in> in_cycle st' \<and> m \<in> in_cycle st'"
    by blast
  have "dfs_post graph st st'" using post1 post by (auto simp: dfs_post_def)
  moreover have "neigh \<in> visited st'" using v1 post by (auto simp: dfs_post_def)
  moreover have "node \<in> set (nbrs graph neigh) \<longrightarrow> node \<in> in_cycle st' \<and> neigh \<in> in_cycle st'"
    using mk1 post by (auto simp: dfs_post_def)
  ultimately show ?case using eq r rv mk by auto
qed

lemma finished_ok_init: "finished_ok g \<lparr>visited = {}, on_stack = {}, in_cycle = {}\<rparr>"
  by (simp add: finished_ok_def)

lemma dfs_all_correct:
  "on_stack st = {} \<Longrightarrow> finished_ok graph st \<Longrightarrow>
     \<exists>st'. dfs_all graph nodes st = Inr st' \<and> on_stack st' = {} \<and> visited st \<subseteq> visited st'
       \<and> set nodes \<subseteq> visited st' \<and> finished_ok graph st'"
proof (induction nodes arbitrary: st)
  case Nil
  then show ?case by simp
next
  case (Cons n nodes)
  show ?case
  proof (cases "n \<in> visited st")
    case True
    from Cons.IH [OF Cons.prems] obtain st' where
      "dfs_all graph nodes st = Inr st'" "on_stack st' = {}" "visited st \<subseteq> visited st'"
      "set nodes \<subseteq> visited st'" "finished_ok graph st'" by blast
    then show ?thesis using True by auto
  next
    case False
    have sv: "on_stack st \<subseteq> visited st" using Cons.prems(1) by simp
    from dfs_correct(1) [OF sv Cons.prems(2), of n] obtain st1 where
      d: "dfs graph n st = Inr st1" and post: "dfs_post graph st st1" and v: "n \<in> visited st1"
      by blast
    have s1: "on_stack st1 = {}" and f1: "finished_ok graph st1" and m1: "visited st \<subseteq> visited st1"
      using post Cons.prems(1) by (auto simp: dfs_post_def)
    from Cons.IH [OF s1 f1] obtain st' where
      r: "dfs_all graph nodes st1 = Inr st'" and "on_stack st' = {}" "visited st1 \<subseteq> visited st'"
      "set nodes \<subseteq> visited st'" "finished_ok graph st'" by blast
    then show ?thesis using False d v m1 by auto
  qed
qed

lemma nbrs_key: "m \<in> set (nbrs graph x) \<Longrightarrow> x \<in> fst ` set graph"
proof (cases "dict_get graph x")
  case None
  assume "m \<in> set (nbrs graph x)"
  then show ?thesis using None by (simp add: nbrs_def)
next
  case (Some ns)
  then show ?thesis using dict_get_None_iff [of graph x] by simp
qed

lemma detect_cycles_correct:
  "\<exists>c. detect_cycles graph = Inr c
     \<and> (\<forall>x m. m \<in> set (nbrs graph x) \<longrightarrow> x \<in> set (nbrs graph m) \<longrightarrow> x \<in> c \<and> m \<in> c)"
proof -
  let ?st0 = "\<lparr>visited = {}, on_stack = {}, in_cycle = {}\<rparr>"
  from dfs_all_correct [of ?st0 graph "map fst graph"] obtain st' where
    r: "dfs_all graph (map fst graph) ?st0 = Inr st'" and s: "on_stack st' = {}"
    and k: "set (map fst graph) \<subseteq> visited st'" and f: "finished_ok graph st'"
    using finished_ok_init by auto
  have "\<forall>x m. m \<in> set (nbrs graph x) \<longrightarrow> x \<in> set (nbrs graph m)
          \<longrightarrow> x \<in> in_cycle st' \<and> m \<in> in_cycle st'"
  proof (intro allI impI)
    fix x m assume m: "m \<in> set (nbrs graph x)" and x: "x \<in> set (nbrs graph m)"
    have "x \<in> visited st' - on_stack st'" using nbrs_key [OF m] k s by auto
    then show "x \<in> in_cycle st' \<and> m \<in> in_cycle st'"
      using f m x by (auto simp: finished_ok_def)
  qed
  then show ?thesis using r by (simp add: detect_cycles_def)
qed

section \<open>Records of mutually dependent tasks\<close>

lemma fill_deps_graph_frame:
  "fill_deps e ts g c = Inr (g', c') \<Longrightarrow>
     (\<forall>t\<in>set ts. eq_repr (task_get t ''_internal_id'') \<noteq> k) \<Longrightarrow>
     dict_get g' k = dict_get g k"
proof (induction ts arbitrary: g c)
  case Nil
  then show ?case by simp
next
  case (Cons t ts)
  from Cons.prems(1) obtain tid ds where
    tid: "dict_get t ''_internal_id'' = Some tid"
    and r: "fill_deps e ts (dict_set g (eq_repr tid) ds) (count_deps ds c) = Inr (g', c')"
    by (auto split: option.splits sum.splits if_splits)
  have "eq_repr tid \<noteq> k" using Cons.prems(2) tid by (simp add: task_get_def)
  moreover have "dict_get g' k = dict_get (dict_set g (eq_repr tid) ds) k"
    using Cons.IH [OF r] Cons.prems(2) by simp
  ultimately show ?case by (simp add: dict_get_dict_set)
qed

lemma fill_deps_graph_last:
  "fill_deps e ts g c = Inr (g', c') \<Longrightarrow> i < length ts \<Longrightarrow>
     (\<forall>j<length ts. i < j \<longrightarrow> eq_repr (task_get (ts ! j) ''_internal_id'')
                                  \<noteq> eq_repr (task_get (ts ! i) ''_internal_id'')) \<Longrightarrow>
     norm_deps_of e (ts ! i) = Inr ds \<Longrightarrow>
     dict_get g' (eq_repr (task_get (ts ! i) ''_internal_id'')) = Some ds"
proof (induction ts arbitrary: g c i)
  case Nil
  then show ?case by simp
next
  case (Cons t ts)
  from Cons.prems(1) obtain tid ds0 where
    tid: "dict_get t ''_internal_id'' = Some tid" and nd: "norm_deps_of e t = Inr ds0"
    and r: "fill_deps e ts (dict_set g (eq_repr tid) ds0) (count_deps ds0 c) = Inr (g', c')"
    by (auto split: option.splits sum.splits if_splits)
  show ?case
  proof (cases i)
    case 0
    have tg: "task_get t ''_internal_id'' = tid" using tid by (simp add: task_get_def)
    have "\<forall>t'\<in>set ts. eq_repr (task_get t' ''_internal_id'') \<noteq> eq_repr tid"
    proof
      fix t' assume "t' \<in> set ts"
      then obtain j where j: "j < length ts" "ts ! j = t'" by (auto simp: in_set_conv_nth)
      then show "eq_repr (task_get t' ''_internal_id'') \<noteq> eq_repr tid"
        using Cons.prems(3) [rule_format, of "Suc j"] 0 tg by auto
    qed
    then have "dict_get g' (eq_repr tid) = dict_get (dict_set g (eq_repr tid) ds0) (eq_repr tid)"
      using fill_deps_graph_frame [OF r] by blast
    then show ?thesis using 0 tg nd Cons.prems(4) by (simp add: dict_get_dict_set)
  next
    case (Suc i')
    have a: "i' < length ts" using Cons.prems(2) Suc by simp
    have b: "\<forall>j<length ts. i' < j \<longrightarrow> eq_repr (task_get (ts ! j) ''_internal_id'')
                                  \<noteq> eq_repr (task_get (ts ! i') ''_internal_id'')"
    proof (intro allI impI)
      fix j assume "j < length ts" "i' < j"
      then show "eq_repr (task_get (ts ! j) ''_internal_id'')
                   \<noteq> eq_repr (task_get (ts ! i') ''_internal_id'')"
        using Cons.prems(3) [rule_format, of "Suc j"] Suc by auto
    qed
    have c: "norm_deps_of e (ts ! i') = Inr ds" using Cons.prems(4) Suc by simp
    show ?thesis using Cons.IH [OF r a b c] Suc by simp
  qed
qed

lemma build_graph_last:
  assumes b: "build_dependency_graph e tasks = (tasks', Inr (graph, dependents))"
    and i: "i < length tasks"
    and last: "\<forall>k<length tasks. i < k \<longrightarrow>
                 \<not> py_eq (internal_id_of k (tasks ! k)) (internal_id_of i (tasks ! i))"
    and nn: "\<not> has_nan (internal_id_of i (tasks ! i))"
    and nd: "norm_deps_of e (tasks ! i) = Inr ds"
  shows "nbrs graph (eq_repr (internal_id_of i (tasks ! i))) = ds"
proof -
  obtain g0 c0 where f: "fill_deps e tasks' g0 c0 = Inr (graph, dependents)"
    by (rule build_parts [OF b])
  have len: "length tasks' = length tasks" using build_length [of e tasks] b by simp
  have tg: "\<And>n. n < length tasks \<Longrightarrow>
              task_get (tasks' ! n) ''_internal_id'' = internal_id_of n (tasks ! n)"
    using build_nth [OF b] by (simp add: task_get_def dict_get_dict_set)
  have nd': "norm_deps_of e (tasks' ! i) = Inr ds"
    using build_nth [OF b i] nd by simp
  have l: "\<forall>j<length tasks'. i < j \<longrightarrow> eq_repr (task_get (tasks' ! j) ''_internal_id'')
                                  \<noteq> eq_repr (task_get (tasks' ! i) ''_internal_id'')"
  proof (intro allI impI)
    fix j assume j: "j < length tasks'" "i < j"
    then have "\<not> py_eq (internal_id_of j (tasks ! j)) (internal_id_of i (tasks ! i))"
      using last len by simp
    then have "eq_repr (internal_id_of j (tasks ! j)) \<noteq> eq_repr (internal_id_of i (tasks ! i))"
      using nn has_nan_cong [of "internal_id_of j (tasks ! j)" "internal_id_of i (tasks ! i)"]
      by (auto simp: py_eq_def)
    then show "eq_repr (task_get (tasks' ! j) ''_internal_id'')
                 \<noteq> eq_repr (task_get (tasks' ! i) ''_internal_id'')"
      using tg [of i] tg [of j] i j len by simp
  qed
  have "dict_get graph (eq_repr (task_get (tasks' ! i) ''_internal_id'')) = Some ds"
    using fill_deps_graph_last [OF f _ l nd'] i len by simp
  then show ?thesis using tg [OF i] by (simp add: nbrs_def)
qed

lemma score_all_nth:
  "score_all e s dc w cyc ts = Inr scored \<Longrightarrow> i < length ts \<Longrightarrow>
     score_task e (ts ! i) s dc w (Some cyc) = Inr (scored ! i)"
proof (induction ts arbitrary: scored i)
  case Nil
  then show ?case by simp
next
  case (Cons t ts)
  from Cons.prems(1) obtain st rest where st: "score_task e t s dc w (Some cyc) = Inr st"
    and rest: "score_all e s dc w cyc ts = Inr rest" and sc: "scored = st # rest"
    by (auto split: sum.splits)
  show ?case
  proof (cases i)
    case 0
    then show ?thesis using st sc by simp
  next
    case (Suc i')
    then show ?thesis using Cons.IH [OF rest, of i'] Cons.prems(2) sc by simp
  qed
qed

lemma join_snoc: "xs \<noteq> [] \<Longrightarrow> join sep (xs @ [z]) = join sep xs @ sep @ z"
proof (induction xs)
  case Nil
  then show ?case by simp
next
  case (Cons a xs)
  show ?case
  proof (cases xs)
    case Nil
    then show ?thesis by simp
  next
    case (Cons b ys)
    then have "join sep (xs @ [z]) = join sep xs @ sep @ z" using Cons.IH by simp
    then show ?thesis using Cons by simp
  qed
qed

lemma join_last: "2 \<le> length bits \<Longrightarrow> \<exists>pre. join sep bits = pre @ sep @ last bits"
proof -
  assume l: "2 \<le> length bits"
  then have ne: "bits \<noteq> []" by auto
  have b: "butlast bits \<noteq> []" using l by (cases bits) (auto simp: Suc_le_eq)
  have "join sep (butlast bits @ [last bits]) = join sep (butlast bits) @ sep @ last bits"
    by (rule join_snoc [OF b])
  then show ?thesis using ne by auto
qed

lemma score_task_bits:
  assumes "score_task e t s dc w cs = Inr st"
  shows "\<exists>bits. st_explanation st
             = join ''; '' (bits @ (if st_has_cycle st
                                    then [''involved in a circular dependency''] else []))
           \<and> 4 \<le> length bits
           \<and> st_has_cycle st = (case cs of None \<Rightarrow> False
                                | Some c \<Rightarrow> c \<noteq> {} \<and> eq_repr (task_get t ''_internal_id'') \<in> c)"
proof -
  from assms obtain imp where i: "normalize_importance e (task_get t ''importance'') = Inr imp"
    by (auto simp: score_task_def Let_def split: sum.splits)
  from assms i obtain u ur where u: "compute_urgency_score e (task_get t ''due_date'') = Inr (u, ur)"
    by (auto simp: score_task_def Let_def split: sum.splits)
  from assms i u obtain ef er where
    ef: "compute_effort_score e (task_get t ''estimated_hours'') = Inr (ef, er)"
    by (auto simp: score_task_def Let_def split: sum.splits)
  have h: "hashable (task_get t ''_internal_id'')"
    using assms i u ef by (auto simp: score_task_def Let_def split: if_splits)
  let ?blocks = "count_of dc (eq_repr (task_get t ''_internal_id''))"
  let ?flag = "(case cs of None \<Rightarrow> False
               | Some c \<Rightarrow> c \<noteq> {} \<and> eq_repr (task_get t ''_internal_id'') \<in> c)"
  let ?tail = "[''importance '' @ str_int imp @ ''.0/10'',
                ''urgency because it is '' @ ur, er]
               @ (if 0 < ?blocks then [''unblocks '' @ str_int ?blocks @ '' other task(s)''] else [])"
  have st: "\<exists>score lead. st = \<lparr>st_task = t, st_score = py_round2 score, st_strategy = s,
                  st_explanation = join ''; '' ((lead # ?tail) @ (if ?flag
                       then [''involved in a circular dependency''] else [])),
                  st_has_cycle = ?flag\<rparr>"
  proof -
    have c: "\<And>p. (case p of (score, lead) \<Rightarrow>
                  Inr \<lparr>st_task = t, st_score = py_round2 score, st_strategy = s,
                    st_explanation = join ''; '' ([lead, ''importance '' @ str_int imp @ ''.0/10'',
                       ''urgency because it is '' @ ur, er]
                      @ (if 0 < ?blocks then [''unblocks '' @ str_int ?blocks @ '' other task(s)'']
                         else [])
                      @ (if ?flag then [''involved in a circular dependency''] else [])),
                    st_has_cycle = ?flag\<rparr>) = Inr st
               \<Longrightarrow> \<exists>score lead. st = \<lparr>st_task = t, st_score = py_round2 score, st_strategy = s,
                  st_explanation = join ''; '' ((lead # ?tail) @ (if ?flag
                       then [''involved in a circular dependency''] else [])),
                  st_has_cycle = ?flag\<rparr>"
    proof -
      fix p :: "pyfloat \<times> string"
      obtain score lead where p: "p = (score, lead)" by (cases p)
      assume "(case p of (score, lead) \<Rightarrow>
                  Inr \<lparr>st_task = t, st_score = py_round2 score, st_strategy = s,
                    st_explanation = join ''; '' ([lead, ''importance '' @ str_int imp @ ''.0/10'',
                       ''urgency because it is '' @ ur, er]
                      @ (if 0 < ?blocks then [''unblocks '' @ str_int ?blocks @ '' other task(s)'']
                         else [])
                      @ (if ?flag then [''involved in a circular dependency''] else [])),
                    st_has_cycle = ?flag\<rparr>) = Inr st"
      then have "st = \<lparr>st_task = t, st_score = py_round2 score, st_strategy = s,
                  st_explanation = join ''; '' ((lead # ?tail) @ (if ?flag
                       then [''involved in a circular dependency''] else [])),
                  st_has_cycle = ?flag\<rparr>"
        unfolding p by simp
      then show "\<exists>score lead. st = \<lparr>st_task = t, st_score = py_round2 score, st_strategy = s,
                  st_explanation = join ''; '' ((lead # ?tail) @ (if ?flag
                       then [''involved in a circular dependency''] else [])),
                  st_has_cycle = ?flag\<rparr>"
        by blast
    qed
    show ?thesis
      by (rule c) (use assms in \<open>simp add: score_task_def Let_def i u ef h
            del: append.simps append_Cons append_Nil\<close>)
  qed
  then obtain score lead where st: "st = \<lparr>st_task = t, st_score = py_round2 score, st_strategy = s,
                  st_explanation = join ''; '' ((lead # ?tail) @ (if ?flag
                       then [''involved in a circular dependency''] else [])),
                  st_has_cycle = ?flag\<rparr>"
    by blast
  let ?bits = "lead # ?tail"
  have "st_explanation st = join ''; '' (?bits @ (if st_has_cycle st
                                    then [''involved in a circular dependency''] else []))"
    by (subst st, subst st) (simp only: scored_task.simps)
  moreover have "4 \<le> length ?bits" by simp
  moreover have "st_has_cycle st = ?flag" by (subst st) simp
  ultimately show ?thesis by blast
qed

lemma score_task_cycle:
  assumes "score_task e t s dc w (Some c) = Inr st" "eq_repr (task_get t ''_internal_id'') \<in> c"
  shows "st_has_cycle st
       \<and> (\<exists>pre. st_explanation st = pre @ ''; involved in a circular dependency'')"
proof -
  from score_task_bits [OF assms(1)] obtain bits where
    ex: "st_explanation st = join ''; '' (bits @ (if st_has_cycle st
                                    then [''involved in a circular dependency''] else []))"
    and l: "4 \<le> length bits"
    and hc0: "st_has_cycle st = (case Some c of None \<Rightarrow> False
                | Some c \<Rightarrow> c \<noteq> {} \<and> eq_repr (task_get t ''_internal_id'') \<in> c)"
    by blast
  have hc: "st_has_cycle st = (c \<noteq> {} \<and> eq_repr (task_get t ''_internal_id'') \<in> c)"
    using hc0 by simp
  have f: "st_has_cycle st" using hc assms(2) by auto
  have "2 \<le> length (bits @ [''involved in a circular dependency''])" using l by simp
  from join_last [OF this, of "''; ''"] obtain pre where
    "join ''; '' (bits @ [''involved in a circular dependency''])
       = pre @ ''; '' @ ''involved in a circular dependency''" by auto
  then have "st_explanation st = pre @ ''; involved in a circular dependency''"
    using ex f by simp
  then show ?thesis using f by blast
qed

lemma eq_repr_VStr_mem:
  "v \<in> set ds \<Longrightarrow> norm_deps_of e t = Inr ds \<Longrightarrow> eq_repr v = v \<and> \<not> has_nan v"
  by (auto simp: norm_deps_of_def split: sum.splits if_splits)

lemma flagged_record:
  assumes b: "build_dependency_graph e tasks = (tasks', Inr (graph, dependents))"
    and sc: "score_all e strategy dependents weights cycle_nodes tasks' = Inr scored"
    and i: "i < length tasks"
    and c: "eq_repr (internal_id_of i (tasks ! i)) \<in> cycle_nodes"
  shows "dict_get (map to_dict scored ! i) ''has_cycle'' = Some (VBool True)
       \<and> (\<exists>pre. dict_get (map to_dict scored ! i) ''explanation''
                   = Some (VStr (pre @ ''; involved in a circular dependency'')))"
proof -
  have len': "length tasks' = length tasks" using build_length [of e tasks] b by simp
  have len: "length scored = length tasks" by (rule recs_length [OF b sc])
  have tg: "task_get (tasks' ! i) ''_internal_id'' = internal_id_of i (tasks ! i)"
    using build_nth [OF b i] by (simp add: task_get_def dict_get_dict_set)
  have s: "score_task e (tasks' ! i) strategy dependents weights (Some cycle_nodes) = Inr (scored ! i)"
    using score_all_nth [OF sc] i len' by simp
  have "eq_repr (task_get (tasks' ! i) ''_internal_id'') \<in> cycle_nodes" using c tg by simp
  from score_task_cycle [OF s this] obtain pre where
    h: "st_has_cycle (scored ! i)"
    and x: "st_explanation (scored ! i) = pre @ ''; involved in a circular dependency''"
    by blast
  have m: "map to_dict scored ! i = to_dict (scored ! i)" using i len by simp
  show ?thesis unfolding m using h x by (simp add: to_dict_get)
qed

text \<open>
  Claim C6, amended. Let task \<open>i\<close> list the internal id of task \<open>j\<close> among its
  stringified dependencies and task \<open>j\<close> that of task \<open>i\<close>, where \<open>i = j\<close> is the case of
  a task that lists itself, and let no later task of the batch carry the internal id
  of \<open>i\<close> or of \<open>j\<close>. Then, whenever \<open>analyze_tasks\<close> returns, the records of both tasks
  have \<open>has_cycle\<close> true and an explanation that ends with the phrase about the
  circular dependency.
\<close>

theorem mutual_dependency_flagged:
  assumes "analyze_tasks e tasks strategy weights = (tasks', Inr out)"
    and "i < length tasks" and "j < length tasks"
    and "\<forall>k<length tasks. i < k \<longrightarrow>
           \<not> py_eq (internal_id_of k (tasks ! k)) (internal_id_of i (tasks ! i))"
    and "\<forall>k<length tasks. j < k \<longrightarrow>
           \<not> py_eq (internal_id_of k (tasks ! k)) (internal_id_of j (tasks ! j))"
    and "norm_deps_of e (tasks ! i) = Inr di" and "norm_deps_of e (tasks ! j) = Inr dj"
    and "internal_id_of j (tasks ! j) \<in> set di" and "internal_id_of i (tasks ! i) \<in> set dj"
  shows "\<exists>recs. length recs = length tasks \<and> mset out = mset recs
       \<and> (\<forall>n<length tasks. \<forall>k. k \<notin> added_keys
             \<longrightarrow> dict_get (recs ! n) k = dict_get (tasks ! n) k)
       \<and> dict_get (recs ! i) ''has_cycle'' = Some (VBool True)
       \<and> dict_get (recs ! j) ''has_cycle'' = Some (VBool True)
       \<and> (\<exists>pre. dict_get (recs ! i) ''explanation''
                   = Some (VStr (pre @ ''; involved in a circular dependency'')))
       \<and> (\<exists>pre. dict_get (recs ! j) ''explanation''
                   = Some (VStr (pre @ ''; involved in a circular dependency'')))"
proof -
  have ne: "tasks \<noteq> []" using assms(2) by auto
  obtain graph dependents cycle_nodes scored sorted_tasks where
    b: "build_dependency_graph e tasks = (tasks', Inr (graph, dependents))"
    and dc: "detect_cycles graph = Inr cycle_nodes"
    and sc: "score_all e strategy dependents weights cycle_nodes tasks' = Inr scored"
    and so: "sort_desc scored = Inr sorted_tasks"
    and out: "out = map to_dict sorted_tasks"
    by (rule analyze_Inr [OF assms(1) ne])
  let ?a = "internal_id_of i (tasks ! i)" and ?b = "internal_id_of j (tasks ! j)"
  have ea: "eq_repr ?a = ?a" and ha: "\<not> has_nan ?a"
    using eq_repr_VStr_mem [OF assms(9) assms(7)] by simp_all
  have eb: "eq_repr ?b = ?b" and hb: "\<not> has_nan ?b"
    using eq_repr_VStr_mem [OF assms(8) assms(6)] by simp_all
  have na: "nbrs graph ?a = di"
    using build_graph_last [OF b assms(2) assms(4) ha assms(6)] ea by simp
  have nb: "nbrs graph ?b = dj"
    using build_graph_last [OF b assms(3) assms(5) hb assms(7)] eb by simp
  from detect_cycles_correct [of graph] dc have
    mk: "\<forall>x m. m \<in> set (nbrs graph x) \<longrightarrow> x \<in> set (nbrs graph m)
            \<longrightarrow> x \<in> cycle_nodes \<and> m \<in> cycle_nodes"
    by simp
  have "?a \<in> cycle_nodes \<and> ?b \<in> cycle_nodes"
    using mk [rule_format, of ?b ?a] na nb assms(8,9) by simp
  then have ca: "eq_repr ?a \<in> cycle_nodes" and cb: "eq_repr ?b \<in> cycle_nodes"
    using ea eb by simp_all
  note fa = flagged_record [OF b sc assms(2) ca]
  note fb = flagged_record [OF b sc assms(3) cb]
  show ?thesis
  proof (intro exI [of _ "map to_dict scored"] conjI allI impI)
    show "length (map to_dict scored) = length tasks"
      using recs_length [OF b sc] by simp
    show "mset out = mset (map to_dict scored)"
      unfolding out by (rule mset_out [OF so])
    show "dict_get (map to_dict scored ! n) k = dict_get (tasks ! n) k"
      if "n < length tasks" "k \<notin> added_keys" for n k
      by (rule recs_fields [OF b sc that])
    show "dict_get (map to_dict scored ! i) ''has_cycle'' = Some (VBool True)"
      by (rule fa [THEN conjunct1])
    show "dict_get (map to_dict scored ! j) ''has_cycle'' = Some (VBool True)"
      by (rule fb [THEN conjunct1])
    show "\<exists>pre. dict_get (map to_dict scored ! i) ''explanation''
                   = Some (VStr (pre @ ''; involved in a circular dependency''))"
      by (rule fa [THEN conjunct2])
    show "\<exists>pre. dict_get (map to_dict scored ! j) ''explanation''
                   = Some (VStr (pre @ ''; involved in a circular dependency''))"
      by (rule fb [THEN conjunct2])
  qed
qed

theorem mutual_dependency_flagged_witness:
  "analyze_tasks env0 batch_cycle ''high_impact'' None
     = (fst (analyze_tasks env0 batch_cycle ''high_impact'' None),
        Inr (projr (snd (analyze_tasks env0 batch_cycle ''high_impact'' None))))
   \<and> (\<exists>recs. mset (projr (snd (analyze_tasks env0 batch_cycle ''high_impact'' None))) = mset recs
         \<and> dict_get (recs ! 0) ''has_cycle'' = Some (VBool True)
         \<and> dict_get (recs ! 1) ''has_cycle'' = Some (VBool True))
   \<and> analyze_tasks env0 batch_self ''high_impact'' None
     = (fst (analyze_tasks env0 batch_self ''high_impact'' None),
        Inr (projr (snd (analyze_tasks env0 batch_self ''high_impact'' None))))
   \<and> (\<exists>recs. mset (projr (snd (analyze_tasks env0 batch_self ''high_impact'' None))) = mset recs
         \<and> dict_get (recs ! 0) ''has_cycle'' = Some (VBool True))
   \<and> map (\<lambda>r. task_get r ''has_cycle'')
         (projr (snd (analyze_tasks env0 batch_cycle ''high_impact'' None)))
       = [VBool True, VBool True]"
proof -
  have h: "analyze_tasks env0 batch_cycle ''high_impact'' None
     = (fst (analyze_tasks env0 batch_cycle ''high_impact'' None),
        Inr (projr (snd (analyze_tasks env0 batch_cycle ''high_impact'' None))))"
    by code_simp
  have l: "0 < length batch_cycle" "1 < length batch_cycle" by (simp_all add: batch_cycle_def)
  have s1: "str_int 1 = ''1''" and s0: "str_int 0 = ''0''" by code_simp+
  have u0: "\<forall>k<length batch_cycle. 0 < k \<longrightarrow>
           \<not> py_eq (internal_id_of k (batch_cycle ! k)) (internal_id_of 0 (batch_cycle ! 0))"
    by (auto simp: batch_cycle_def less_Suc_eq internal_id_of_def task_get_def py_eq_def)
  have u1: "\<forall>k<length batch_cycle. 1 < k \<longrightarrow>
           \<not> py_eq (internal_id_of k (batch_cycle ! k)) (internal_id_of 1 (batch_cycle ! 1))"
    by (auto simp: batch_cycle_def)
  have d0: "norm_deps_of env0 (batch_cycle ! 0) = Inr [VStr ''b'']"
    and d1: "norm_deps_of env0 (batch_cycle ! 1) = Inr [VStr ''a'']"
    by (simp_all add: batch_cycle_def norm_deps_of_def task_get_def)
  have m0: "internal_id_of 1 (batch_cycle ! 1) \<in> set [VStr ''b'']"
    and m1: "internal_id_of 0 (batch_cycle ! 0) \<in> set [VStr ''a'']"
    by (simp_all add: batch_cycle_def internal_id_of_def task_get_def)
  from mutual_dependency_flagged [OF h l u0 u1 d0 d1 m0 m1]
  have c: "\<exists>recs. mset (projr (snd (analyze_tasks env0 batch_cycle ''high_impact'' None))) = mset recs
         \<and> dict_get (recs ! 0) ''has_cycle'' = Some (VBool True)
         \<and> dict_get (recs ! 1) ''has_cycle'' = Some (VBool True)"
    by blast
  have h': "analyze_tasks env0 batch_self ''high_impact'' None
     = (fst (analyze_tasks env0 batch_self ''high_impact'' None),
        Inr (projr (snd (analyze_tasks env0 batch_self ''high_impact'' None))))"
    by code_simp
  have l': "0 < length batch_self" by (simp add: batch_self_def)
  have u': "\<forall>k<length batch_self. 0 < k \<longrightarrow>
           \<not> py_eq (internal_id_of k (batch_self ! k)) (internal_id_of 0 (batch_self ! 0))"
    by (simp add: batch_self_def)
  have d': "norm_deps_of env0 (batch_self ! 0) = Inr [VStr ''a'']"
    by (simp add: batch_self_def norm_deps_of_def task_get_def)
  have m': "internal_id_of 0 (batch_self ! 0) \<in> set [VStr ''a'']"
    by (simp add: batch_self_def internal_id_of_def task_get_def)
  from mutual_dependency_flagged [OF h' l' l' u' u' d' d' m' m']
  have c': "\<exists>recs. mset (projr (snd (analyze_tasks env0 batch_self ''high_impact'' None))) = mset recs
         \<and> dict_get (recs ! 0) ''has_cycle'' = Some (VBool True)"
    by blast
  have v: "map (\<lambda>r. task_get r ''has_cycle'')
         (projr (snd (analyze_tasks env0 batch_cycle ''high_impact'' None)))
       = [VBool True, VBool True]"
    by code_simp
  show ?thesis by (intro conjI) (rule h c h' c' v)+
qed

text \<open>
  The claim as stated fails when a later task reuses an id: its empty dependency list
  replaces the one stored for the id, the edge from \<open>a\<close> to \<open>b\<close> is lost, and no task of
  \<open>batch_dup\<close> is flagged.
\<close>

theorem mutual_dependency_duplicate_id_counterexample:
  "norm_deps_of env0 (batch_dup ! 0) = Inr [VStr ''b'']
   \<and> internal_id_of 1 (batch_dup ! 1) = VStr ''b''
   \<and> norm_deps_of env0 (batch_dup ! 1) = Inr [VStr ''a'']
   \<and> internal_id_of 0 (batch_dup ! 0) = VStr ''a''
   \<and> \<not> isl (snd (analyze_tasks env0 batch_dup ''high_impact'' None))
   \<and> task_get (projr (snd (analyze_tasks env0 batch_dup ''high_impact'' None)) ! 0) ''id'' = VStr ''a''
   \<and> task_get (projr (snd (analyze_tasks env0 batch_dup ''high_impact'' None)) ! 0) ''has_cycle''
       = VBool False
   \<and> task_get (projr (snd (analyze_tasks env0 batch_dup ''high_impact'' None)) ! 1) ''id'' = VStr ''b''
   \<and> task_get (projr (snd (analyze_tasks env0 batch_dup ''high_impact'' None)) ! 1) ''has_cycle''
       = VBool False
   \<and> task_get (projr (snd (analyze_tasks env0 batch_dup ''high_impact'' None)) ! 2) ''has_cycle''
       = VBool False"
  by code_simp

section \<open>Missing and malformed fields\<close>

lemma py_int_errors: "py_int e v \<noteq> Inl KeyError"
  by (induction e v rule: py_int.induct) (auto split: option.splits)

lemma py_int_overflow: "py_int e v = Inl OverflowError \<Longrightarrow> is_inf v"
  by (induction e v rule: py_int.induct) (auto split: option.splits)

lemma normalize_importance_Inr:
  assumes "\<not> is_inf v"
  shows "\<exists>n. normalize_importance e v = Inr n \<and> 1 \<le> n \<and> n \<le> 10"
proof (cases "py_int e v")
  case (Inl err)
  have "err \<noteq> KeyError" "err \<noteq> OverflowError"
    using Inl py_int_errors [of e v] py_int_overflow [of e v] assms by auto
  then show ?thesis using Inl by (cases err) (auto simp: normalize_importance_def)
next
  case (Inr n)
  then show ?thesis by (auto simp: normalize_importance_def clamp_def)
qed

lemma normalize_importance_invalid:
  "py_int e v = Inl TypeError \<or> py_int e v = Inl ValueError \<Longrightarrow> normalize_importance e v = Inr 5"
  by (auto simp: normalize_importance_def)

lemma urgency_well_typed:
  "(if truthy v then is_date v else True) \<Longrightarrow> \<exists>u r. compute_urgency_score e v = Inr (u, r)"
  by (cases v) (auto simp: compute_urgency_score_def safe_days_until_due_def Let_def split: if_splits)

lemma effort_well_typed:
  "(if v = VNone then True else num_of v \<noteq> None) \<Longrightarrow> \<exists>u r. compute_effort_score e v = Inr (u, r)"
  by (auto simp: compute_effort_score_def split: if_splits)

lemma hashable_internal_id:
  "(if truthy (task_get t ''id'') then hashable (task_get t ''id'') else True)
     \<Longrightarrow> hashable (internal_id_of idx t)"
  by (simp add: internal_id_of_def split: if_splits)

lemma assign_ids_returns:
  "\<forall>t\<in>set ts. \<forall>n. hashable (internal_id_of n t)
     \<Longrightarrow> \<exists>gc. snd (assign_ids idx ts g c) = Inr gc"
proof (induction ts arbitrary: idx g c)
  case Nil
  then show ?case by simp
next
  case (Cons t ts)
  have h: "hashable (internal_id_of idx t)" using Cons.prems by simp
  show ?case using Cons.IH [of "Suc idx"] Cons.prems h by (simp add: assign_ids_Cons)
qed

lemma fill_deps_returns:
  "\<forall>t\<in>set ts. (\<exists>tid. dict_get t ''_internal_id'' = Some tid \<and> hashable tid)
                 \<and> \<not> isl (norm_deps_of e t)
     \<Longrightarrow> \<exists>gc. fill_deps e ts g c = Inr gc"
proof (induction ts arbitrary: g c)
  case Nil
  then show ?case by simp
next
  case (Cons t ts)
  from Cons.prems obtain tid ds where
    "dict_get t ''_internal_id'' = Some tid" "hashable tid" "norm_deps_of e t = Inr ds"
    by (cases "norm_deps_of e t") auto
  then show ?case using Cons.IH Cons.prems by simp
qed

lemma norm_deps_well_typed:
  "(if truthy (task_get t ''dependencies'')
    then \<not> isl (py_iter (task_get t ''dependencies'')) else True)
     \<Longrightarrow> \<not> isl (norm_deps_of e t)"
  by (auto simp: norm_deps_of_def split: sum.splits if_splits)

lemma score_all_returns:
  "\<forall>t\<in>set ts. \<exists>st. score_task e t s dc w (Some cyc) = Inr st
     \<Longrightarrow> \<exists>scored. score_all e s dc w cyc ts = Inr scored"
proof (induction ts)
  case Nil
  then show ?case by simp
next
  case (Cons t ts)
  then obtain st scored where "score_task e t s dc w (Some cyc) = Inr st"
    "score_all e s dc w cyc ts = Inr scored" by auto
  then show ?case by simp
qed

lemma key_lt_comparable:
  "comparable i1 i2 \<Longrightarrow> \<not> isl (key_lt (s1, i1) (s2, i2))"
  by (auto simp: comparable_def split: if_splits)

lemma sort_desc_returns:
  "\<forall>a\<in>set xs. \<forall>b\<in>set xs. \<not> isl (key_lt (sort_key a) (sort_key b))
     \<Longrightarrow> sort_desc xs = Inr (foldr insort_desc xs [])"
  by (simp add: sort_desc_def list_all_iff)

lemma length_foldr_insort: "length (foldr insort_desc xs []) = length xs"
  by (metis mset_foldr_insort size_mset)

lemma sort_key_raw: "sort_key st = (st_score st, raw_importance (st_task st))"
  by (simp add: sort_key_def raw_importance_def)

lemma raw_importance_dict_set [simp]:
  "raw_importance (dict_set t ''_internal_id'' v) = raw_importance t"
  by (simp add: raw_importance_def dict_get_dict_set)

lemma analyze_returns:
  assumes wt: "list_all well_typed_task tasks" and cmp: "comparable_importance tasks"
  shows "\<exists>out. snd (analyze_tasks e tasks strategy weights) = Inr out \<and> length out = length tasks"
proof (cases "tasks = []")
  case True
  then show ?thesis by (simp add: analyze_tasks_def)
next
  case False
  have wt': "\<And>t. t \<in> set tasks \<Longrightarrow> well_typed_task t" using wt by (simp add: list_all_iff)
  have ids: "\<forall>t\<in>set tasks. \<forall>n. hashable (internal_id_of n t)"
    using wt' by (simp add: well_typed_task_def hashable_internal_id)
  obtain tasks' r where a: "assign_ids 0 tasks [] [] = (tasks', r)"
    by (cases "assign_ids 0 tasks [] []")
  obtain g0 c0 where r: "r = Inr (g0, c0)"
    using assign_ids_returns [OF ids, of 0 "[]" "[]"] a by auto
  have tasks': "tasks' = map (\<lambda>(i, t). dict_set t ''_internal_id'' (internal_id_of i t)) (enumerate 0 tasks)"
    using assign_ids_fst [of 0 tasks "[]" "[]" "(g0, c0)"] a r by simp
  have len: "length tasks' = length tasks" using tasks' by simp
  have nth: "\<And>n. n < length tasks \<Longrightarrow>
               tasks' ! n = dict_set (tasks ! n) ''_internal_id'' (internal_id_of n (tasks ! n))"
    using tasks' by (simp add: nth_enumerate_eq)
  have each: "\<And>t'. t' \<in> set tasks' \<Longrightarrow>
                \<exists>n t. n < length tasks \<and> t = tasks ! n \<and> well_typed_task t
                  \<and> t' = dict_set t ''_internal_id'' (internal_id_of n t)"
  proof -
    fix t' assume "t' \<in> set tasks'"
    then obtain n where n: "n < length tasks'" "tasks' ! n = t'" by (auto simp: in_set_conv_nth)
    then have "well_typed_task (tasks ! n)" using wt' len by simp
    then show "\<exists>n t. n < length tasks \<and> t = tasks ! n \<and> well_typed_task t
                  \<and> t' = dict_set t ''_internal_id'' (internal_id_of n t)"
      using n nth len by auto
  qed
  have fd: "\<forall>t\<in>set tasks'. (\<exists>tid. dict_get t ''_internal_id'' = Some tid \<and> hashable tid)
                 \<and> \<not> isl (norm_deps_of e t)"
  proof
    fix t' assume "t' \<in> set tasks'"
    then obtain n t where t: "well_typed_task t"
      "t' = dict_set t ''_internal_id'' (internal_id_of n t)" using each by blast
    have "hashable (internal_id_of n t)"
      using t(1) by (simp add: well_typed_task_def hashable_internal_id)
    moreover have "\<not> isl (norm_deps_of e t)"
      using t(1) by (simp add: well_typed_task_def norm_deps_well_typed)
    moreover have "norm_deps_of e t' = norm_deps_of e t"
      using t(2) by (simp add: norm_deps_of_def task_get_dict_set)
    ultimately show "(\<exists>tid. dict_get t' ''_internal_id'' = Some tid \<and> hashable tid)
                 \<and> \<not> isl (norm_deps_of e t')"
      using t(2) by (simp add: dict_get_dict_set)
  qed
  obtain graph dependents where f: "fill_deps e tasks' g0 c0 = Inr (graph, dependents)"
    using fill_deps_returns [OF fd, of g0 c0] by auto
  have b: "build_dependency_graph e tasks = (tasks', Inr (graph, dependents))"
    using a r f by (simp add: build_dependency_graph_def)
  obtain cycle_nodes where dc: "detect_cycles graph = Inr cycle_nodes"
    using detect_cycles_correct [of graph] by blast
  have st: "\<forall>t\<in>set tasks'. \<exists>st. score_task e t strategy dependents weights (Some cycle_nodes) = Inr st"
  proof
    fix t' assume "t' \<in> set tasks'"
    then obtain n t where t: "well_typed_task t"
      "t' = dict_set t ''_internal_id'' (internal_id_of n t)" using each by blast
    have tg: "\<And>k. k \<noteq> ''_internal_id'' \<Longrightarrow> task_get t' k = task_get t k"
      using t(2) by (simp add: task_get_dict_set)
    obtain imp where i: "normalize_importance e (task_get t' ''importance'') = Inr imp"
      using normalize_importance_Inr [of "task_get t ''importance''" e] t(1) tg
      by (auto simp: well_typed_task_def)
    obtain u ur where u: "compute_urgency_score e (task_get t' ''due_date'') = Inr (u, ur)"
      using urgency_well_typed [of "task_get t ''due_date''" e] t(1) tg
      by (auto simp: well_typed_task_def)
    obtain ef er where ef: "compute_effort_score e (task_get t' ''estimated_hours'') = Inr (ef, er)"
      using effort_well_typed [of "task_get t ''estimated_hours''" e] t(1) tg
      by (auto simp: well_typed_task_def)
    have "hashable (internal_id_of n t)"
      using t(1) by (simp add: well_typed_task_def hashable_internal_id)
    then have h: "hashable (task_get t' ''_internal_id'')"
      using t(2) by (simp add: task_get_def dict_get_dict_set)
    show "\<exists>st. score_task e t' strategy dependents weights (Some cycle_nodes) = Inr st"
      by (rule score_task_returns [OF i u ef h])
  qed
  obtain scored where sc: "score_all e strategy dependents weights cycle_nodes tasks' = Inr scored"
    using score_all_returns [OF st] by blast
  have tk: "map st_task scored = tasks'" by (rule score_all_tasks [OF sc])
  have raw: "\<And>x. x \<in> set scored \<Longrightarrow> \<exists>t\<in>set tasks. raw_importance (st_task x) = raw_importance t"
  proof -
    fix x assume "x \<in> set scored"
    then have "st_task x \<in> set tasks'" using tk by (metis image_eqI set_map)
    then obtain n t where "n < length tasks" "t = tasks ! n"
      "st_task x = dict_set t ''_internal_id'' (internal_id_of n t)" using each by blast
    then show "\<exists>t\<in>set tasks. raw_importance (st_task x) = raw_importance t" by auto
  qed
  have cm: "\<forall>a\<in>set scored. \<forall>b\<in>set scored. \<not> isl (key_lt (sort_key a) (sort_key b))"
  proof (intro ballI)
    fix x y assume "x \<in> set scored" "y \<in> set scored"
    then obtain tx ty where tx: "tx \<in> set tasks" "raw_importance (st_task x) = raw_importance tx"
      and ty: "ty \<in> set tasks" "raw_importance (st_task y) = raw_importance ty"
      using raw by blast
    have "comparable (raw_importance tx) (raw_importance ty)"
      using cmp tx(1) ty(1) by (simp add: comparable_importance_def list_all_iff)
    then show "\<not> isl (key_lt (sort_key x) (sort_key y))"
      unfolding sort_key_raw tx(2) ty(2) by (rule key_lt_comparable)
  qed
  have so: "sort_desc scored = Inr (foldr insort_desc scored [])"
    by (rule sort_desc_returns [OF cm])
  have 1: "snd (analyze_tasks e tasks strategy weights)
             = Inr (map to_dict (foldr insort_desc scored []))"
    using False b dc sc so by (simp add: analyze_tasks_def)
  have 2: "length (map to_dict (foldr insort_desc scored [])) = length tasks"
    using recs_length [OF b sc] by (simp add: length_foldr_insort)
  show ?thesis using 1 2 by blast
qed




end
